theory Spec2Isabelle
  imports Complex_Main "HOL-Library.Word"
begin

section \<open>Data model\<close>

text \<open>
  Nodes and signals of the k-LUT network are both \<open>uint64_t\<close> indices into the node
  table; they are modelled as natural numbers (an index of a \<open>std::vector\<close>).
  The per-node scratch words \<open>data[0].h1\<close> (fan-out size), \<open>data[0].h2\<close>
  (application value), \<open>data[1].h1\<close> (function literal) and \<open>data[1].h2\<close> (visited
  flag) are 32-bit machine words: the accessors \<open>fanout_size\<close>, \<open>value\<close> and the
  literal parameter of \<open>_create_node\<close> are all \<open>uint32_t\<close>.
\<close>

type_synonym node = nat
type_synonym signal = nat

datatype error = Out_of_bounds | Assertion_failed

record klut_storage_node =
  children :: "signal list"
  data0_h1 :: "32 word"
  data0_h2 :: "32 word"
  data1_h1 :: "32 word"
  data1_h2 :: "32 word"

text \<open>
  The network: the node table, the primary inputs and outputs in creation order, the
  structural-hash index (keyed by what \<open>klut_storage_node::operator==\<close> compares: the
  children and the function literal), the truth-table cache, and the notifications
  delivered to a registered observer (\<open>on_add\<close> receives the new index,
  \<open>on_modified\<close> the node index and a list of children). A truth table
  (\<open>kitty::dynamic_truth_table\<close>) is the list of its bits, lowest index first.
\<close>

record klut_network =
  nodes :: "klut_storage_node list"
  inputs :: "node list"
  outputs :: "signal list"
  hash :: "(signal list \<times> 32 word) \<rightharpoonup> node"
  cache :: "bool list list"
  on_add :: "node list"
  on_modified :: "(node \<times> signal list) list"

definition empty_node :: klut_storage_node where
  "empty_node = \<lparr>children = [], data0_h1 = 0, data0_h2 = 0, data1_h1 = 0, data1_h2 = 0\<rparr>"

text \<open>
  The constructor: the storage starts with one node (constant 0) and \<open>_init\<close> reserves
  the second one for constant 1; their function literals are 0 and 1.
\<close>

text \<open>
  Modelled from the spec: \<open>truth_table_cache\<close> is not in the sources. The spec says that
  functions are interned by value and that a node stores only an integer literal into the
  cache: \<open>insert\<close> returns the literal of an equal function already stored and
  otherwise stores the function under a new literal. The literal is taken to be the
  position in the cache.
\<close>

fun cache_find :: "bool list \<Rightarrow> bool list list \<Rightarrow> nat \<Rightarrow> nat option" where
  "cache_find tt [] k = None"
| "cache_find tt (t # ts) k = (if t = tt then Some k else cache_find tt ts (Suc k))"

definition cache_insert :: "bool list \<Rightarrow> bool list list \<Rightarrow> 32 word \<times> bool list list" where
  "cache_insert tt c =
     (case cache_find tt c 0 of
        Some k \<Rightarrow> (of_nat k, c)
      | None \<Rightarrow> (of_nat (length c), c @ [tt]))"

definition klut_init :: klut_network where
  "klut_init =
     (let c0 = snd (cache_insert [False] []);
          c1 = snd (cache_insert [True, False] c0);
          c2 = snd (cache_insert [False, False, False, True] c1)
      in \<lparr>nodes = [empty_node\<lparr>data1_h1 := 0\<rparr>, empty_node\<lparr>data1_h1 := 1\<rparr>],
          inputs = [], outputs = [], hash = Map.empty, cache = c2,
          on_add = [], on_modified = []\<rparr>)"

text \<open>\<open>size\<close> casts the length of the node table to \<open>uint32_t\<close>.\<close>

definition size_ntk :: "klut_network \<Rightarrow> nat" where
  "size_ntk ntk = length (nodes ntk) mod 2 ^ 32"

definition num_pis :: "klut_network \<Rightarrow> nat" where
  "num_pis ntk = length (inputs ntk) mod 2 ^ 32"

definition num_pos :: "klut_network \<Rightarrow> nat" where
  "num_pos ntk = length (outputs ntk) mod 2 ^ 32"

definition is_constant :: "node \<Rightarrow> bool" where
  "is_constant n = (n \<le> 1)"

text \<open>\<open>is_pi\<close> reads \<open>nodes[n]\<close>: the read is out of bounds beyond the table.\<close>

definition is_pi :: "klut_network \<Rightarrow> node \<Rightarrow> error + bool" where
  "is_pi ntk n =
     (if n > 1 then
        (if n < length (nodes ntk) then Inr (children (nodes ntk ! n) = [])
         else Inl Out_of_bounds)
      else Inr False)"

definition fanout_size :: "klut_network \<Rightarrow> node \<Rightarrow> error + 32 word" where
  "fanout_size ntk n =
     (if n < length (nodes ntk) then Inr (data0_h1 (nodes ntk ! n)) else Inl Out_of_bounds)"

subsection \<open>Conflict graph\<close>

text \<open>
  \<open>detail::graph\<close>: \<open>_num_vertices\<close> is a \<open>uint32_t\<close>, \<open>_num_edges\<close> a
  \<open>std::size_t\<close>, \<open>_weights\<close> a vector of \<open>int32_t\<close> (read with \<open>sint\<close>), and
  \<open>_adjacent\<close> a vector of \<open>std::set<uint32_t>\<close>. A \<open>std::set\<close> is modelled as
  the strictly ascending list of its elements, which is also its iteration order.
\<close>

record graph =
  num_vertices :: "32 word"
  num_edges :: "64 word"
  adjacent :: "nat list list"
  weights :: "32 word list"

definition empty_graph :: graph where
  "empty_graph = \<lparr>num_vertices = 0, num_edges = 0, adjacent = [], weights = []\<rparr>"

text \<open>\<open>std::set::insert\<close> and \<open>std::set::erase\<close> on the ascending list.\<close>

definition set_insert :: "nat \<Rightarrow> nat list \<Rightarrow> nat list" where
  "set_insert x xs = (if x \<in> set xs then xs else insort x xs)"

definition set_erase :: "nat \<Rightarrow> nat list \<Rightarrow> nat list" where
  "set_erase x xs = removeAll x xs"

text \<open>
  \<open>add_vertex\<close> takes the weight as \<open>uint32_t\<close> and stores it as \<open>int32_t\<close> (the same
  32 bits); it returns the new index.
\<close>

definition add_vertex :: "32 word \<Rightarrow> graph \<Rightarrow> nat \<times> graph" where
  "add_vertex weight g =
     (length (weights g),
      g\<lparr>weights := weights g @ [weight],
        adjacent := adjacent g @ [[]],
        num_vertices := num_vertices g + 1\<rparr>)"

text \<open>Indexing a vector beyond its end is undefined behaviour: the model reports it.\<close>

definition add_edge :: "nat \<Rightarrow> nat \<Rightarrow> graph \<Rightarrow> error + graph" where
  "add_edge v1 v2 g =
     (if v1 = v2 then Inr g
      else if v1 \<ge> length (adjacent g) then Inl Out_of_bounds
      else if v2 \<in> set (adjacent g ! v1) then Inr g
      else if v2 \<ge> length (adjacent g) then Inl Out_of_bounds
      else Inr (g\<lparr>adjacent :=
                    (let a1 = (adjacent g)[v1 := set_insert v2 (adjacent g ! v1)]
                     in a1[v2 := set_insert v1 (a1 ! v2)]),
                  num_edges := num_edges g + 1\<rparr>))"

text \<open>The loop \<open>for (auto w : _adjacent[vertex]) _adjacent[w].erase(vertex)\<close>.\<close>

fun erase_from :: "nat \<Rightarrow> nat list \<Rightarrow> nat list list \<Rightarrow> error + nat list list" where
  "erase_from vertex [] adj = Inr adj"
| "erase_from vertex (w # ws) adj =
     (if w \<ge> length adj then Inl Out_of_bounds
      else erase_from vertex ws (adj[w := set_erase vertex (adj ! w)]))"

definition remove_vertex :: "nat \<Rightarrow> graph \<Rightarrow> error + graph" where
  "remove_vertex vertex g =
     (if vertex \<ge> length (weights g) then Inl Out_of_bounds
      else if weights g ! vertex = - 1 then Inl Assertion_failed
      else if vertex \<ge> length (adjacent g) then Inl Out_of_bounds
      else
        (case erase_from vertex (adjacent g ! vertex) (adjacent g) of
           Inl e \<Rightarrow> Inl e
         | Inr adj \<Rightarrow>
             Inr (g\<lparr>weights := (weights g)[vertex := - 1],
                   num_edges := num_edges g - of_nat (length (adjacent g ! vertex)),
                   adjacent := adj[vertex := []],
                   num_vertices := num_vertices g - 1\<rparr>)))"

definition has_vertex :: "graph \<Rightarrow> nat \<Rightarrow> bool" where
  "has_vertex g vertex = (0 \<le> sint (weights g ! vertex))"

definition degree :: "graph \<Rightarrow> nat \<Rightarrow> nat" where
  "degree g vertex = length (adjacent g ! vertex)"

definition weight :: "graph \<Rightarrow> nat \<Rightarrow> int" where
  "weight g vertex = sint (weights g ! vertex)"

text \<open>Sequences of calls on a graph, stopping at the first failure.\<close>

datatype graph_op = Add_vertex "32 word" | Add_edge nat nat | Remove_vertex nat

fun graph_step :: "graph_op \<Rightarrow> graph \<Rightarrow> error + graph" where
  "graph_step (Add_vertex w) g = Inr (snd (add_vertex w g))"
| "graph_step (Add_edge v1 v2) g = add_edge v1 v2 g"
| "graph_step (Remove_vertex v) g = remove_vertex v g"

fun graph_run :: "graph_op list \<Rightarrow> graph \<Rightarrow> error + graph" where
  "graph_run [] g = Inr g"
| "graph_run (x # xs) g =
     (case graph_step x g of Inl e \<Rightarrow> Inl e | Inr g' \<Rightarrow> graph_run xs g')"

text \<open>A vertex index is present when it is in range and its weight is non-negative.\<close>

definition present :: "graph \<Rightarrow> nat \<Rightarrow> bool" where
  "present g v = (v < length (weights g) \<and> has_vertex g v)"

text \<open>The calls of a sequence remove only vertices that are present when removed.\<close>

fun removals_present :: "graph_op list \<Rightarrow> graph \<Rightarrow> bool" where
  "removals_present [] g = True"
| "removals_present (x # xs) g =
     ((case x of Remove_vertex v \<Rightarrow> present g v | _ \<Rightarrow> True) \<and>
      (case graph_step x g of Inl e \<Rightarrow> True | Inr g' \<Rightarrow> removals_present xs g'))"

text \<open>
  The stronger discipline of the callers in this file: a vertex is added with a weight
  that is non-negative as \<open>int32_t\<close>, an edge joins two present vertices, and only
  present vertices are removed.
\<close>

fun calls_present :: "graph_op list \<Rightarrow> graph \<Rightarrow> bool" where
  "calls_present [] g = True"
| "calls_present (x # xs) g =
     ((case x of
         Add_vertex w \<Rightarrow> 0 \<le> sint w
       | Add_edge v1 v2 \<Rightarrow> present g v1 \<and> present g v2
       | Remove_vertex v \<Rightarrow> present g v) \<and>
      (case graph_step x g of Inl e \<Rightarrow> True | Inr g' \<Rightarrow> calls_present xs g'))"

text \<open>The properties of a graph that C9 names.\<close>

definition adjacency_symmetric :: "graph \<Rightarrow> bool" where
  "adjacency_symmetric g =
     (\<forall>v < length (adjacent g). \<forall>w \<in> set (adjacent g ! v).
        w < length (adjacent g) \<and> v \<in> set (adjacent g ! w))"

definition adjacency_irreflexive :: "graph \<Rightarrow> bool" where
  "adjacency_irreflexive g = (\<forall>v < length (adjacent g). v \<notin> set (adjacent g ! v))"

definition removed_isolated :: "graph \<Rightarrow> bool" where
  "removed_isolated g =
     (\<forall>v < length (weights g). \<not> has_vertex g v \<longrightarrow>
        weights g ! v = - 1 \<and> v < length (adjacent g) \<and> adjacent g ! v = [])"

definition count_present :: "graph \<Rightarrow> nat" where
  "count_present g = length (filter (\<lambda>w. 0 \<le> sint w) (weights g))"

definition adjacency_total :: "graph \<Rightarrow> nat" where
  "adjacency_total g = sum_list (map length (adjacent g))"


subsection \<open>Node map (vector implementation)\<close>

text \<open>
  \<open>node_map<T, Ntk, std::vector<T>>\<close> holds a reference to its network and a vector.
  \<open>resize\<close> compares \<open>ntk.size()\<close> with the length of the vector and calls
  \<open>std::vector::resize(n, init_value)\<close> only when the network is larger; that call
  appends copies of \<open>init_value\<close>.
\<close>

definition resize :: "klut_network \<Rightarrow> 'a \<Rightarrow> 'a list \<Rightarrow> 'a list" where
  "resize ntk init_value data =
     (if size_ntk ntk > length data
      then data @ replicate (size_ntk ntk - length data) init_value
      else data)"

text \<open>The invariant that the graph operations maintain.\<close>

definition graph_inv :: "graph \<Rightarrow> bool" where
  "graph_inv g =
     (length (adjacent g) = length (weights g) \<and>
      (\<forall>v < length (adjacent g). distinct (adjacent g ! v)) \<and>
      adjacency_symmetric g \<and> adjacency_irreflexive g \<and> removed_isolated g \<and>
      num_vertices g = of_nat (count_present g) \<and>
      even (adjacency_total g) \<and>
      num_edges g = of_nat (adjacency_total g div 2))"

subsection \<open>Independent-set selection\<close>

text \<open>The loop \<open>for (auto v : neighbors) g.remove_vertex(v)\<close>.\<close>

fun remove_vertices :: "nat list \<Rightarrow> graph \<Rightarrow> error + graph" where
  "remove_vertices [] g = Inr g"
| "remove_vertices (v # vs) g =
     (case remove_vertex v g of Inl e \<Rightarrow> Inl e | Inr g' \<Rightarrow> remove_vertices vs g')"

text \<open>
  The loop body that both selectors share: skip a vertex that is no longer in the graph,
  otherwise append it to \<open>mwis\<close>, copy its neighbours, remove it and then remove the
  copied neighbours. The graph is passed by reference in the source; the model returns it
  with the selection.
\<close>

fun select_vertices :: "nat list \<Rightarrow> graph \<Rightarrow> nat list \<Rightarrow> error + (nat list \<times> graph)" where
  "select_vertices [] g mwis = Inr (mwis, g)"
| "select_vertices (i # is) g mwis =
     (if i \<ge> length (weights g) then Inl Out_of_bounds
      else if \<not> has_vertex g i then select_vertices is g mwis
      else if i \<ge> length (adjacent g) then Inl Out_of_bounds
      else
        (let neighbors = adjacent g ! i in
         case remove_vertex i g of
           Inl e \<Rightarrow> Inl e
         | Inr g1 \<Rightarrow>
             (case remove_vertices neighbors g1 of
                Inl e \<Rightarrow> Inl e
              | Inr g2 \<Rightarrow> select_vertices is g2 (mwis @ [i]))))"

text \<open>
  The current graph is the initial graph restricted to the vertices still present: used
  to state what the selection loop maintains.
\<close>

definition restricts :: "graph \<Rightarrow> graph \<Rightarrow> bool" where
  "restricts g0 g =
     (length (weights g) = length (weights g0) \<and>
      (\<forall>u. present g u \<longrightarrow>
         present g0 u \<and> weights g ! u = weights g0 ! u \<and>
         set (adjacent g ! u) = {x \<in> set (adjacent g0 ! u). present g x}))"

text \<open>
  The selection expressed on the initial adjacency lists alone: scan the order, keep a
  vertex unless it is in the removed set, and add it and its neighbours to that set.
\<close>

fun greedy_scan :: "nat list list \<Rightarrow> nat list \<Rightarrow> nat set \<Rightarrow> nat list" where
  "greedy_scan adj [] R = []"
| "greedy_scan adj (i # is) R =
     (if i \<in> R then greedy_scan adj is R
      else i # greedy_scan adj is (R \<union> {i} \<union> set (adj ! i)))"

fun scan_removed :: "nat list list \<Rightarrow> nat list \<Rightarrow> nat set \<Rightarrow> nat set" where
  "scan_removed adj [] R = R"
| "scan_removed adj (i # is) R =
     (if i \<in> R then scan_removed adj is R
      else scan_removed adj is (R \<union> {i} \<union> set (adj ! i)))"

text \<open>
  Division in \<open>double\<close>. A double is represented by the real number it denotes. The
  quotient of two positive integers is the exact quotient rounded to the nearest number
  with a significand of 53 bits, ties to the even significand: \<open>binade\<close> is the exponent
  \<open>t\<close> with \<open>2^t \<le> a / b < 2^(t + 1)\<close>, the significand is the quotient scaled into
  \<open>[2^52, 2^53)\<close> and rounded.
\<close>

fun bit_length :: "nat \<Rightarrow> nat" where
  "bit_length n = (if n = 0 then 0 else Suc (bit_length (n div 2)))"

declare bit_length.simps [simp del]

definition round_half_even :: "nat \<Rightarrow> nat \<Rightarrow> nat" where
  "round_half_even a b =
     (let q = a div b; r = a mod b
      in if 2 * r < b then q else if 2 * r > b then q + 1 else if even q then q else q + 1)"

definition binade :: "nat \<Rightarrow> nat \<Rightarrow> int" where
  "binade a b =
     (let t = int (bit_length a) - int (bit_length b)
      in if a * 2 ^ nat (- t) \<ge> b * 2 ^ nat t then t else t - 1)"

definition double_div :: "nat \<Rightarrow> nat \<Rightarrow> real" where
  "double_div a b =
     (if a = 0 then 0
      else (let e = binade a b - 52;
                m = round_half_even (a * 2 ^ nat (- e)) (b * 2 ^ nat e)
            in real m * 2 ^ nat e / 2 ^ nat (- e)))"

text \<open>
  \<open>gwmin_value\<close> is \<open>(double)weight(vertex) / (degree(vertex) + 1)\<close>. The weight is an
  \<open>int32_t\<close> and converts exactly; the degree is the size of a set of \<open>uint32_t\<close>, so
  that the degree plus one is below \<open>2^53\<close> and converts exactly too. The division rounds,
  symmetrically in the sign, and all these quotients are in the range of normal doubles.
\<close>

definition gwmin_value :: "graph \<Rightarrow> nat \<Rightarrow> real" where
  "gwmin_value g vertex =
     (let w = weight g vertex; d = degree g vertex + 1
      in if w < 0 then - double_div (nat (- w)) d else double_div (nat w) d)"

text \<open>The comparator handed to \<open>std::stable_sort\<close>.\<close>

definition gwmin_before :: "graph \<Rightarrow> nat \<Rightarrow> nat \<Rightarrow> bool" where
  "gwmin_before g v w =
     (let value_v = gwmin_value g v; value_w = gwmin_value g w
      in value_v > value_w \<or> (value_v = value_w \<and> degree g v > degree g w))"

text \<open>
  The ranking that the stable sort of the indices in ascending order gives: by the
  comparator, and by lower index where the comparator orders neither way.
\<close>

definition ranks_before :: "graph \<Rightarrow> nat \<Rightarrow> nat \<Rightarrow> bool" where
  "ranks_before g v w = (gwmin_before g v w \<or> (\<not> gwmin_before g w v \<and> v < w))"

text \<open>
  The vertices that can still be picked after the vertices \<open>picked\<close>: the indices below
  \<open>num_vertices\<close> that were in the graph handed in and are neither picked nor adjacent
  there to a picked vertex.
\<close>

definition eligible :: "graph \<Rightarrow> nat list \<Rightarrow> nat \<Rightarrow> bool" where
  "eligible g picked u =
     (u < unat (num_vertices g) \<and> present g u \<and>
      (\<forall>v \<in> set picked. u \<noteq> v \<and> u \<notin> set (adjacent g ! v)))"

text \<open>
  \<open>std::stable_sort\<close> as a stable insertion sort: an element is placed after the
  elements that come strictly before it and in front of the first one that does not.
\<close>

fun stable_insert :: "('a \<Rightarrow> 'a \<Rightarrow> bool) \<Rightarrow> 'a \<Rightarrow> 'a list \<Rightarrow> 'a list" where
  "stable_insert lt x [] = [x]"
| "stable_insert lt x (y # ys) = (if lt y x then y # stable_insert lt x ys else x # y # ys)"

definition stable_sort :: "('a \<Rightarrow> 'a \<Rightarrow> bool) \<Rightarrow> 'a list \<Rightarrow> 'a list" where
  "stable_sort lt xs = foldr (stable_insert lt) xs []"

text \<open>
  The GWMIN selector sorts the indices \<open>0 .. num_vertices - 1\<close> once, with the values and
  degrees of the graph as it was handed in, and then runs the selection loop over that
  order. The comparator and \<open>has_vertex\<close> index both vectors at every such index.
\<close>

definition maximum_weighted_independent_set_gwmin :: "graph \<Rightarrow> error + (nat list \<times> graph)" where
  "maximum_weighted_independent_set_gwmin g =
     (let n = unat (num_vertices g) in
      if n > length (weights g) \<or> n > length (adjacent g) then Inl Out_of_bounds
      else select_vertices (stable_sort (gwmin_before g) [0..<n]) g [])"

text \<open>The plain greedy selector runs the same loop over the indices in ascending order.\<close>

definition maximal_weighted_independent_set :: "graph \<Rightarrow> error + (nat list \<times> graph)" where
  "maximal_weighted_independent_set g = select_vertices [0..<unat (num_vertices g)] g []"

subsection \<open>Conflict graph of the retained candidates\<close>

text \<open>
  A cut as \<open>network_cuts_graph\<close> reads it: its leaves (\<open>cut->size()\<close> is their number)
  and the \<open>int32_t\<close> gain stored in its data.
\<close>

record rewriting_cut =
  cut_leaves :: "node list"
  cut_gain :: "32 word"

text \<open>
  \<open>network_cuts_graph\<close> is a template over the network type and reads the result of
  cut enumeration. What it calls but the sources do not contain is taken as a parameter:
  the number of nodes \<open>ntk.size()\<close> that \<open>foreach_node\<close> runs over, the number of nodes
  \<open>cuts.nodes_size()\<close> the cuts were enumerated for, the test
  \<open>is_constant(n) || is_ci(n) || is_ro(n)\<close>, \<open>mffc_size\<close>, the cut set of a node in
  iteration order, and the gates that \<open>cut_view(ntk, leaves, n).foreach_gate\<close> enumerates.
\<close>

record cuts_context =
  ctx_size :: nat
  ctx_nodes_size :: nat
  ctx_is_terminal :: "node \<Rightarrow> bool"
  ctx_mffc_size :: "node \<Rightarrow> nat"
  ctx_cuts :: "node \<Rightarrow> rewriting_cut list"
  ctx_view_gates :: "node \<Rightarrow> rewriting_cut \<Rightarrow> node list"

text \<open>The local variables of \<open>network_cuts_graph\<close>.\<close>

record cuts_graph =
  cg_graph :: graph
  cg_conflicts :: "(node \<times> nat) list list"
  cg_vertex_to_cut_addr :: "(node \<times> nat) list"
  cg_cut_addr_to_vertex :: "nat list list"

text \<open>\<open>dcut.foreach_gate\<close>: \<open>conflicts[n2].emplace_back(n, cctr)\<close> for every gate.\<close>

fun record_conflicts ::
  "node \<Rightarrow> nat \<Rightarrow> node list \<Rightarrow> (node \<times> nat) list list \<Rightarrow> error + (node \<times> nat) list list" where
  "record_conflicts n cctr [] cf = Inr cf"
| "record_conflicts n cctr (n2 # ns) cf =
     (if n2 \<ge> length cf then Inl Out_of_bounds
      else record_conflicts n cctr ns (cf[n2 := cf ! n2 @ [(n, cctr)]]))"

text \<open>
  The test that lets a cut through: more than two leaves and a gain of at least 1, or at
  least 0 when zero gain is allowed.
\<close>

definition cut_accepted :: "bool \<Rightarrow> rewriting_cut \<Rightarrow> bool" where
  "cut_accepted allow_zero_gain ct =
     (\<not> length (cut_leaves ct) \<le> 2 \<and>
      \<not> sint (cut_gain ct) < (if allow_zero_gain then 0 else 1))"

text \<open>
  The loop over the cuts of node \<open>n\<close>. The counter \<open>cctr\<close> advances only for a cut that
  is let through. The vertex index is a \<open>std::size_t\<close> and is stored into a vector of
  \<open>uint32_t\<close>.
\<close>

fun add_cuts ::
  "cuts_context \<Rightarrow> bool \<Rightarrow> node \<Rightarrow> rewriting_cut list \<Rightarrow> nat \<Rightarrow> cuts_graph \<Rightarrow> error + cuts_graph" where
  "add_cuts ctx allow_zero_gain n [] cctr st = Inr st"
| "add_cuts ctx allow_zero_gain n (ct # cs) cctr st =
     (if length (cut_leaves ct) \<le> 2 then add_cuts ctx allow_zero_gain n cs cctr st
      else if sint (cut_gain ct) < (if allow_zero_gain then 0 else 1)
      then add_cuts ctx allow_zero_gain n cs cctr st
      else
        (case record_conflicts n cctr (ctx_view_gates ctx n ct) (cg_conflicts st) of
           Inl e \<Rightarrow> Inl e
         | Inr cf \<Rightarrow>
             (let (v, g) = add_vertex (cut_gain ct) (cg_graph st) in
              if v \<noteq> length (cg_vertex_to_cut_addr st) then Inl Assertion_failed
              else if n \<ge> length (cg_cut_addr_to_vertex st) then Inl Out_of_bounds
              else add_cuts ctx allow_zero_gain n cs (cctr + 1)
                     (st\<lparr>cg_graph := g, cg_conflicts := cf,
                         cg_vertex_to_cut_addr := cg_vertex_to_cut_addr st @ [(n, cctr)],
                         cg_cut_addr_to_vertex :=
                           (cg_cut_addr_to_vertex st)
                             [n := cg_cut_addr_to_vertex st ! n @ [v mod 2 ^ 32]]\<rparr>))))"

text \<open>The body of \<open>foreach_node\<close> and the loop itself.\<close>

definition visit_node :: "cuts_context \<Rightarrow> bool \<Rightarrow> node \<Rightarrow> cuts_graph \<Rightarrow> error + cuts_graph" where
  "visit_node ctx allow_zero_gain n st =
     (if n \<ge> ctx_nodes_size ctx \<or> ctx_is_terminal ctx n then Inr st
      else if ctx_mffc_size ctx n = 1 then Inr st
      else add_cuts ctx allow_zero_gain n (ctx_cuts ctx n) 0 st)"

fun visit_nodes :: "cuts_context \<Rightarrow> bool \<Rightarrow> node list \<Rightarrow> cuts_graph \<Rightarrow> error + cuts_graph" where
  "visit_nodes ctx allow_zero_gain [] st = Inr st"
| "visit_nodes ctx allow_zero_gain (n # ns) st =
     (case visit_node ctx allow_zero_gain n st of
        Inl e \<Rightarrow> Inl e
      | Inr st' \<Rightarrow> visit_nodes ctx allow_zero_gain ns st')"

text \<open>\<open>cut_addr_to_vertex[n][c]\<close>, out of bounds beyond either vector.\<close>

definition vertex_at :: "nat list list \<Rightarrow> node \<times> nat \<Rightarrow> error + nat" where
  "vertex_at c2v a =
     (if fst a < length c2v \<and> snd a < length (c2v ! fst a) then Inr (c2v ! fst a ! snd a)
      else Inl Out_of_bounds)"

text \<open>
  The two inner loops over one list \<open>conflicts[n]\<close>: for \<open>j\<close> from 1 and \<open>i\<close> below
  \<open>j\<close>, an edge joins the vertices of entries \<open>i\<close> and \<open>j\<close> when they differ.
  \<open>edges_with\<close> is the loop over \<open>i\<close> for the entry \<open>b\<close> at \<open>j\<close>, run over the entries
  before it; \<open>edges_among\<close> is the loop over \<open>j\<close>, which does nothing for the first
  entry.
\<close>

fun edges_with :: "nat list list \<Rightarrow> (node \<times> nat) list \<Rightarrow> node \<times> nat \<Rightarrow> graph \<Rightarrow> error + graph" where
  "edges_with c2v [] b g = Inr g"
| "edges_with c2v (a # as) b g =
     (case vertex_at c2v a of
        Inl e \<Rightarrow> Inl e
      | Inr v1 \<Rightarrow>
          (case vertex_at c2v b of
             Inl e \<Rightarrow> Inl e
           | Inr v2 \<Rightarrow>
               (case (if v1 \<noteq> v2 then add_edge v1 v2 g else Inr g) of
                  Inl e \<Rightarrow> Inl e
                | Inr g' \<Rightarrow> edges_with c2v as b g')))"

fun edges_among ::
  "nat list list \<Rightarrow> (node \<times> nat) list \<Rightarrow> (node \<times> nat) list \<Rightarrow> graph \<Rightarrow> error + graph" where
  "edges_among c2v before [] g = Inr g"
| "edges_among c2v before (b # rest) g =
     (case edges_with c2v before b g of
        Inl e \<Rightarrow> Inl e
      | Inr g' \<Rightarrow> edges_among c2v (before @ [b]) rest g')"

text \<open>The outer loop over the nodes \<open>n\<close> of \<open>conflicts\<close>.\<close>

fun conflict_edges :: "nat list list \<Rightarrow> (node \<times> nat) list list \<Rightarrow> graph \<Rightarrow> error + graph" where
  "conflict_edges c2v [] g = Inr g"
| "conflict_edges c2v (xs # xss) g =
     (case edges_among c2v [] xs g of
        Inl e \<Rightarrow> Inl e
      | Inr g' \<Rightarrow> conflict_edges c2v xss g')"

definition network_cuts_graph ::
  "cuts_context \<Rightarrow> bool \<Rightarrow> error + (graph \<times> (node \<times> nat) list)" where
  "network_cuts_graph ctx allow_zero_gain =
     (case visit_nodes ctx allow_zero_gain [0..<ctx_size ctx]
             \<lparr>cg_graph = empty_graph,
              cg_conflicts = replicate (ctx_nodes_size ctx) [],
              cg_vertex_to_cut_addr = [],
              cg_cut_addr_to_vertex = replicate (ctx_nodes_size ctx) []\<rparr> of
        Inl e \<Rightarrow> Inl e
      | Inr st \<Rightarrow>
          (case conflict_edges (cg_cut_addr_to_vertex st) (cg_conflicts st) (cg_graph st) of
             Inl e \<Rightarrow> Inl e
           | Inr g \<Rightarrow> Inr (g, cg_vertex_to_cut_addr st)))"

text \<open>
  The selection step of \<open>cut_rewriting_impl::run\<close>: GWMIN for \<open>minimize_weight\<close>, the
  plain greedy selector otherwise.
\<close>

datatype selection_strategy = Minimize_weight | Greedy

definition select_candidates :: "selection_strategy \<Rightarrow> graph \<Rightarrow> error + (nat list \<times> graph)" where
  "select_candidates strategy g =
     (case strategy of
        Minimize_weight \<Rightarrow> maximum_weighted_independent_set_gwmin g
      | Greedy \<Rightarrow> maximal_weighted_independent_set g)"

text \<open>
  The cuts of a node that are let through, in order: the cut address \<open>(n, c)\<close> of a
  vertex names the \<open>c\<close>-th of them, and \<open>touched\<close> is the list of gates its cut view
  enumerates.
\<close>

definition accepted_cuts :: "cuts_context \<Rightarrow> bool \<Rightarrow> node \<Rightarrow> rewriting_cut list" where
  "accepted_cuts ctx allow_zero_gain n = filter (cut_accepted allow_zero_gain) (ctx_cuts ctx n)"

definition touched :: "cuts_context \<Rightarrow> bool \<Rightarrow> node \<times> nat \<Rightarrow> node list" where
  "touched ctx allow_zero_gain a =
     ctx_view_gates ctx (fst a) (accepted_cuts ctx allow_zero_gain (fst a) ! snd a)"


text \<open>What the first loop of \<open>network_cuts_graph\<close> maintains, for the set \<open>D\<close> of nodes visited.\<close>

definition cg_graph_ok :: "cuts_graph \<Rightarrow> bool" where
  "cg_graph_ok st =
     (graph_inv (cg_graph st) \<and>
      length (weights (cg_graph st)) = length (cg_vertex_to_cut_addr st) \<and>
      (\<forall>v < length (cg_vertex_to_cut_addr st). present (cg_graph st) v))"

definition cg_vertices_ok :: "cuts_context \<Rightarrow> bool \<Rightarrow> node set \<Rightarrow> cuts_graph \<Rightarrow> bool" where
  "cg_vertices_ok ctx azg D st =
     (\<forall>v < length (cg_vertex_to_cut_addr st).
        fst (cg_vertex_to_cut_addr st ! v) \<in> D \<and>
        fst (cg_vertex_to_cut_addr st ! v) < ctx_nodes_size ctx \<and>
        snd (cg_vertex_to_cut_addr st ! v)
          < length (cg_cut_addr_to_vertex st ! fst (cg_vertex_to_cut_addr st ! v)) \<and>
        cg_cut_addr_to_vertex st ! fst (cg_vertex_to_cut_addr st ! v)
          ! snd (cg_vertex_to_cut_addr st ! v) = v mod 2 ^ 32 \<and>
        snd (cg_vertex_to_cut_addr st ! v)
          < length (accepted_cuts ctx azg (fst (cg_vertex_to_cut_addr st ! v))) \<and>
        (\<forall>x \<in> set (touched ctx azg (cg_vertex_to_cut_addr st ! v)).
           x < ctx_nodes_size ctx \<and> cg_vertex_to_cut_addr st ! v \<in> set (cg_conflicts st ! x)))"

definition cg_conflicts_ok :: "cuts_context \<Rightarrow> cuts_graph \<Rightarrow> bool" where
  "cg_conflicts_ok ctx st =
     (length (cg_conflicts st) = ctx_nodes_size ctx \<and>
      length (cg_cut_addr_to_vertex st) = ctx_nodes_size ctx \<and>
      (\<forall>x < ctx_nodes_size ctx. \<forall>a \<in> set (cg_conflicts st ! x).
         fst a < ctx_nodes_size ctx \<and> snd a < length (cg_cut_addr_to_vertex st ! fst a) \<and>
         cg_cut_addr_to_vertex st ! fst a ! snd a < length (cg_vertex_to_cut_addr st)))"

definition cg_unvisited_ok :: "cuts_context \<Rightarrow> node set \<Rightarrow> cuts_graph \<Rightarrow> bool" where
  "cg_unvisited_ok ctx D st =
     (\<forall>n < ctx_nodes_size ctx. n \<notin> D \<longrightarrow> cg_cut_addr_to_vertex st ! n = [])"

text \<open>Every gate a cut view enumerates is a node the cuts were enumerated for.\<close>

definition gates_in_range :: "cuts_context \<Rightarrow> bool" where
  "gates_in_range ctx =
     (\<forall>n. \<forall>c \<in> set (ctx_cuts ctx n). \<forall>x \<in> set (ctx_view_gates ctx n c). x < ctx_nodes_size ctx)"

text \<open>For the second loop: a valid entry, and a list of entries whose vertices are joined pairwise.\<close>

definition entry_ok :: "nat list list \<Rightarrow> graph \<Rightarrow> node \<times> nat \<Rightarrow> bool" where
  "entry_ok c2v g a =
     (fst a < length c2v \<and> snd a < length (c2v ! fst a) \<and> present g (c2v ! fst a ! snd a))"

definition pairs_linked :: "nat list list \<Rightarrow> graph \<Rightarrow> (node \<times> nat) list \<Rightarrow> bool" where
  "pairs_linked c2v g xs =
     (\<forall>a \<in> set xs. \<forall>b \<in> set xs. c2v ! fst a ! snd a \<noteq> c2v ! fst b ! snd b \<longrightarrow>
        c2v ! fst b ! snd b \<in> set (adjacent g ! (c2v ! fst a ! snd a)))"

definition edges_kept :: "graph \<Rightarrow> graph \<Rightarrow> bool" where
  "edges_kept g g' =
     (weights g' = weights g \<and>
      (\<forall>a < length (adjacent g). set (adjacent g ! a) \<subseteq> set (adjacent g' ! a)))"

text \<open>
  A small instance: nodes 0 to 2 are terminals, gates 3, 4 and 5 have one retained cut
  each, with gains 1, 2 and 1; the cut view of gate 4 also contains gate 3.
\<close>

definition example_context :: cuts_context where
  "example_context =
     \<lparr>ctx_size = 6, ctx_nodes_size = 6, ctx_is_terminal = (\<lambda>n. n < 3),
      ctx_mffc_size = (\<lambda>n. 2),
      ctx_cuts = (\<lambda>n. if n = 3 then [\<lparr>cut_leaves = [0, 1, 2], cut_gain = 1\<rparr>]
                       else if n = 4 then [\<lparr>cut_leaves = [0, 1, 2], cut_gain = 2\<rparr>]
                       else if n = 5 then [\<lparr>cut_leaves = [0, 1, 2], cut_gain = 1\<rparr>]
                       else []),
      ctx_view_gates = (\<lambda>n c. if n = 4 then [3, 4] else [n])\<rparr>"

subsection \<open>Network operations\<close>

text \<open>A loop over a list that stops at the first failure.\<close>

fun for_each :: "('a \<Rightarrow> 's \<Rightarrow> error + 's) \<Rightarrow> 'a list \<Rightarrow> 's \<Rightarrow> error + 's" where
  "for_each f [] s = Inr s"
| "for_each f (x # xs) s = (case f x s of Inl e \<Rightarrow> Inl e | Inr s' \<Rightarrow> for_each f xs s')"

definition create_pi :: "klut_network \<Rightarrow> signal \<times> klut_network" where
  "create_pi ntk =
     (let index = length (nodes ntk)
      in (index, ntk\<lparr>nodes := nodes ntk @ [empty_node\<lparr>data1_h1 := 2\<rparr>],
                    inputs := inputs ntk @ [index]\<rparr>))"

text \<open>\<open>_storage->nodes[c].data[0].h1++\<close>, out of bounds beyond the node table.\<close>

definition incr_fanout :: "signal \<Rightarrow> klut_network \<Rightarrow> error + klut_network" where
  "incr_fanout c ntk =
     (if c \<ge> length (nodes ntk) then Inl Out_of_bounds
      else Inr (ntk\<lparr>nodes := (nodes ntk)
                  [c := (nodes ntk ! c)\<lparr>data0_h1 := data0_h1 (nodes ntk ! c) + 1\<rparr>]\<rparr>))"

definition create_po :: "signal \<Rightarrow> klut_network \<Rightarrow> error + klut_network" where
  "create_po f ntk =
     (case incr_fanout f ntk of
        Inl e \<Rightarrow> Inl e
      | Inr ntk' \<Rightarrow> Inr (ntk'\<lparr>outputs := outputs ntk' @ [f]\<rparr>))"

text \<open>The scratch value \<open>data[0].h2\<close>.\<close>

definition clear_values :: "klut_network \<Rightarrow> klut_network" where
  "clear_values ntk = ntk\<lparr>nodes := map (\<lambda>n. n\<lparr>data0_h2 := 0\<rparr>) (nodes ntk)\<rparr>"

definition node_value :: "klut_network \<Rightarrow> node \<Rightarrow> error + 32 word" where
  "node_value ntk n =
     (if n \<ge> length (nodes ntk) then Inl Out_of_bounds else Inr (data0_h2 (nodes ntk ! n)))"

definition set_value :: "node \<Rightarrow> 32 word \<Rightarrow> klut_network \<Rightarrow> error + klut_network" where
  "set_value n v ntk =
     (if n \<ge> length (nodes ntk) then Inl Out_of_bounds
      else Inr (ntk\<lparr>nodes := (nodes ntk)[n := (nodes ntk ! n)\<lparr>data0_h2 := v\<rparr>]\<rparr>))"

text \<open>\<open>incr_value\<close> returns the value before the increment, \<open>decr_value\<close> the one after.\<close>

definition incr_value :: "node \<Rightarrow> klut_network \<Rightarrow> error + (32 word \<times> klut_network)" where
  "incr_value n ntk =
     (if n \<ge> length (nodes ntk) then Inl Out_of_bounds
      else Inr (data0_h2 (nodes ntk ! n),
                ntk\<lparr>nodes := (nodes ntk)
                  [n := (nodes ntk ! n)\<lparr>data0_h2 := data0_h2 (nodes ntk ! n) + 1\<rparr>]\<rparr>))"

definition decr_value :: "node \<Rightarrow> klut_network \<Rightarrow> error + (32 word \<times> klut_network)" where
  "decr_value n ntk =
     (if n \<ge> length (nodes ntk) then Inl Out_of_bounds
      else Inr (data0_h2 (nodes ntk ! n) - 1,
                ntk\<lparr>nodes := (nodes ntk)
                  [n := (nodes ntk ! n)\<lparr>data0_h2 := data0_h2 (nodes ntk ! n) - 1\<rparr>]\<rparr>))"

text \<open>
  \<open>_create_node\<close>: look the pair of children and literal up in the structural-hash
  index and return the node found; otherwise append the node, register it, count one more
  fan-out for each child (the new node is already in the table), clear its scratch value
  and notify \<open>on_add\<close>.
\<close>

definition create_node_literal ::
  "signal list \<Rightarrow> 32 word \<Rightarrow> klut_network \<Rightarrow> error + (signal \<times> klut_network)" where
  "create_node_literal cs literal ntk =
     (case hash ntk (cs, literal) of
        Some i \<Rightarrow> Inr (i, ntk)
      | None \<Rightarrow>
          (let index = length (nodes ntk);
               ntk1 = ntk\<lparr>nodes := nodes ntk @ [empty_node\<lparr>children := cs, data1_h1 := literal\<rparr>],
                         hash := (hash ntk)((cs, literal) \<mapsto> index)\<rparr>
           in case for_each incr_fanout cs ntk1 of
                Inl e \<Rightarrow> Inl e
              | Inr ntk2 \<Rightarrow>
                  (case set_value index 0 ntk2 of
                     Inl e \<Rightarrow> Inl e
                   | Inr ntk3 \<Rightarrow> Inr (index, ntk3\<lparr>on_add := on_add ntk3 @ [index]\<rparr>))))"

text \<open>\<open>create_node\<close> interns the function and calls \<open>_create_node\<close> with its literal.\<close>

definition create_node ::
  "signal list \<Rightarrow> bool list \<Rightarrow> klut_network \<Rightarrow> error + (signal \<times> klut_network)" where
  "create_node cs function ntk =
     (let (literal, c) = cache_insert function (cache ntk)
      in create_node_literal cs literal (ntk\<lparr>cache := c\<rparr>))"

subsection \<open>Node substitution\<close>

text \<open>
  The body of the loop over \<open>n.children\<close> for the child at position \<open>j\<close> of node
  \<open>i\<close>: when the child is \<open>old_node\<close>, copy the whole current children list, overwrite
  the child, count one more fan-out for \<open>new_signal\<close> and notify \<open>on_modified\<close> with
  the copy.
\<close>

definition substitute_child :: "node \<Rightarrow> signal \<Rightarrow> nat \<Rightarrow> nat \<Rightarrow> klut_network \<Rightarrow> error + klut_network" where
  "substitute_child old_node new_signal i j ntk =
     (if i \<ge> length (nodes ntk) then Inl Out_of_bounds
      else if j \<ge> length (children (nodes ntk ! i)) then Inl Out_of_bounds
      else if children (nodes ntk ! i) ! j = old_node then
        (let old_children = children (nodes ntk ! i);
             ntk1 = ntk\<lparr>nodes := (nodes ntk)
                      [i := (nodes ntk ! i)\<lparr>children := old_children[j := new_signal]\<rparr>]\<rparr>
         in case incr_fanout new_signal ntk1 of
              Inl e \<Rightarrow> Inl e
            | Inr ntk2 \<Rightarrow> Inr (ntk2\<lparr>on_modified := on_modified ntk2 @ [(i, old_children)]\<rparr>))
      else Inr ntk)"

definition substitute_in_node :: "node \<Rightarrow> signal \<Rightarrow> nat \<Rightarrow> klut_network \<Rightarrow> error + klut_network" where
  "substitute_in_node old_node new_signal i ntk =
     (if i \<ge> length (nodes ntk) then Inl Out_of_bounds
      else for_each (substitute_child old_node new_signal i)
             [0..<length (children (nodes ntk ! i))] ntk)"

text \<open>The loop over the outputs: overwrite the output, then count one more fan-out.\<close>

definition substitute_output :: "node \<Rightarrow> signal \<Rightarrow> nat \<Rightarrow> klut_network \<Rightarrow> error + klut_network" where
  "substitute_output old_node new_signal k ntk =
     (if k \<ge> length (outputs ntk) then Inl Out_of_bounds
      else if outputs ntk ! k = old_node
      then incr_fanout new_signal (ntk\<lparr>outputs := (outputs ntk)[k := new_signal]\<rparr>)
      else Inr ntk)"

definition substitute_node :: "node \<Rightarrow> signal \<Rightarrow> klut_network \<Rightarrow> error + klut_network" where
  "substitute_node old_node new_signal ntk =
     (case for_each (substitute_in_node old_node new_signal) [0..<length (nodes ntk)] ntk of
        Inl e \<Rightarrow> Inl e
      | Inr ntk1 \<Rightarrow>
          (case for_each (substitute_output old_node new_signal) [0..<length (outputs ntk1)] ntk1 of
             Inl e \<Rightarrow> Inl e
           | Inr ntk2 \<Rightarrow>
               (if old_node \<ge> length (nodes ntk2) then Inl Out_of_bounds
                else Inr (ntk2\<lparr>nodes := (nodes ntk2)
                            [old_node := (nodes ntk2 ! old_node)\<lparr>data0_h1 := 0\<rparr>]\<rparr>))))"

text \<open>
  The effect of the loops in closed form. \<open>redirect\<close> rewrites one reference;
  \<open>part_children\<close> is a children list whose first \<open>k\<close> positions have been rewritten;
  \<open>node_events\<close> are the notifications one node causes: one for each position that
  holds \<open>old_node\<close>, carrying the children list with the earlier positions rewritten.
\<close>

definition redirect :: "node \<Rightarrow> signal \<Rightarrow> signal \<Rightarrow> signal" where
  "redirect old_node new_signal c = (if c = old_node then new_signal else c)"

definition part_children :: "node \<Rightarrow> signal \<Rightarrow> nat \<Rightarrow> signal list \<Rightarrow> signal list" where
  "part_children old_node new_signal k cs = map (redirect old_node new_signal) (take k cs) @ drop k cs"

definition child_events :: "node \<Rightarrow> signal \<Rightarrow> nat \<Rightarrow> signal list \<Rightarrow> nat \<Rightarrow> (node \<times> signal list) list" where
  "child_events old_node new_signal i cs k =
     map (\<lambda>j. (i, part_children old_node new_signal j cs)) (filter (\<lambda>j. cs ! j = old_node) [0..<k])"

definition node_events :: "node \<Rightarrow> signal \<Rightarrow> nat \<Rightarrow> signal list \<Rightarrow> (node \<times> signal list) list" where
  "node_events old_node new_signal i cs = child_events old_node new_signal i cs (length cs)"

definition subst_nodes ::
  "node \<Rightarrow> signal \<Rightarrow> nat \<Rightarrow> nat \<Rightarrow> 32 word \<Rightarrow> klut_storage_node list \<Rightarrow> klut_storage_node list" where
  "subst_nodes old_node new_signal i k d ns =
     map (\<lambda>x. (ns ! x)
            \<lparr>children :=
               (if x < i then map (redirect old_node new_signal) (children (ns ! x))
                else if x = i then part_children old_node new_signal k (children (ns ! x))
                else children (ns ! x)),
             data0_h1 := data0_h1 (ns ! x) + (if x = new_signal then d else 0)\<rparr>)
       [0..<length ns]"

text \<open>The references to a node: in the children lists and in the outputs.\<close>

definition fanin_refs :: "klut_network \<Rightarrow> node \<Rightarrow> nat" where
  "fanin_refs ntk x = sum_list (map (\<lambda>n. count_list (children n) x) (nodes ntk))"

definition refs :: "klut_network \<Rightarrow> node \<Rightarrow> nat" where
  "refs ntk x = fanin_refs ntk x + count_list (outputs ntk) x"

definition bump :: "signal \<Rightarrow> 32 word \<Rightarrow> klut_storage_node list \<Rightarrow> klut_storage_node list" where
  "bump s d ns = ns[s := (ns ! s)\<lparr>data0_h1 := data0_h1 (ns ! s) + d\<rparr>]"

subsection \<open>Sequences of network operations\<close>

text \<open>
  The operations that build and edit a network, and the accessors of the scratch value,
  run in sequence from the empty network until the first failure.
\<close>

datatype klut_op =
    Create_pi
  | Create_node "signal list" "bool list"
  | Create_po signal
  | Substitute_node node signal
  | Clear_values
  | Set_value node "32 word"
  | Incr_value node
  | Decr_value node

fun klut_step :: "klut_op \<Rightarrow> klut_network \<Rightarrow> error + klut_network" where
  "klut_step Create_pi ntk = Inr (snd (create_pi ntk))"
| "klut_step (Create_node cs f) ntk =
     (case create_node cs f ntk of Inl e \<Rightarrow> Inl e | Inr (s, ntk') \<Rightarrow> Inr ntk')"
| "klut_step (Create_po f) ntk = create_po f ntk"
| "klut_step (Substitute_node old_node new_signal) ntk = substitute_node old_node new_signal ntk"
| "klut_step Clear_values ntk = Inr (clear_values ntk)"
| "klut_step (Set_value n v) ntk = set_value n v ntk"
| "klut_step (Incr_value n) ntk =
     (case incr_value n ntk of Inl e \<Rightarrow> Inl e | Inr (v, ntk') \<Rightarrow> Inr ntk')"
| "klut_step (Decr_value n) ntk =
     (case decr_value n ntk of Inl e \<Rightarrow> Inl e | Inr (v, ntk') \<Rightarrow> Inr ntk')"

definition klut_run :: "klut_op list \<Rightarrow> error + klut_network" where
  "klut_run ops = for_each klut_step ops klut_init"

text \<open>No operation of the sequence substitutes a node by itself.\<close>

fun no_self_substitution :: "klut_op list \<Rightarrow> bool" where
  "no_self_substitution [] = True"
| "no_self_substitution (Substitute_node old_node new_signal # ops) =
     (old_node \<noteq> new_signal \<and> no_self_substitution ops)"
| "no_self_substitution (x # ops) = no_self_substitution ops"

text \<open>
  Every reference points into the node table, and every fanout counter is the number of
  references to its node, as a 32-bit word.
\<close>

definition refs_in_range :: "klut_network \<Rightarrow> bool" where
  "refs_in_range ntk =
     ((\<forall>n \<in> set (nodes ntk). \<forall>c \<in> set (children n). c < length (nodes ntk)) \<and>
      (\<forall>f \<in> set (outputs ntk). f < length (nodes ntk)))"

definition fanout_counts :: "klut_network \<Rightarrow> bool" where
  "fanout_counts ntk =
     (\<forall>x < length (nodes ntk). data0_h1 (nodes ntk ! x) = of_nat (refs ntk x))"

definition counts_inv :: "klut_network \<Rightarrow> bool" where
  "counts_inv ntk = (refs_in_range ntk \<and> fanout_counts ntk)"

subsection \<open>Reconvergence-driven cut\<close>

text \<open>
  \<open>foreach_fanin\<close> visits nothing at node 0 and at a primary input, and the children of
  any other node; the list is what it visits. It reads \<open>nodes[n]\<close>.
\<close>

definition foreach_fanin :: "klut_network \<Rightarrow> node \<Rightarrow> error + signal list" where
  "foreach_fanin ntk n =
     (if n = 0 then Inr []
      else case is_pi ntk n of
             Inl e \<Rightarrow> Inl e
           | Inr True \<Rightarrow> Inr []
           | Inr False \<Rightarrow>
               if n < length (nodes ntk) then Inr (children (nodes ntk ! n))
               else Inl Out_of_bounds)"

text \<open>
  \<open>cost\<close>: a signed 32-bit counter that starts at \<open>-1\<close> and is incremented for every fanin
  that is not a constant and whose scratch value is zero.
\<close>

definition count_fanin :: "klut_network \<Rightarrow> signal \<Rightarrow> 32 word \<Rightarrow> error + 32 word" where
  "count_fanin ntk child current_cost =
     (if is_constant child then Inr current_cost
      else case node_value ntk child of
             Inl e \<Rightarrow> Inl e
           | Inr v \<Rightarrow> Inr (if v = 0 then current_cost + 1 else current_cost))"

definition cost :: "klut_network \<Rightarrow> node \<Rightarrow> error + 32 word" where
  "cost ntk n =
     (case foreach_fanin ntk n of
        Inl e \<Rightarrow> Inl e
      | Inr cs \<Rightarrow> for_each (count_fanin ntk) cs (- 1))"

text \<open>
  \<open>std::sort\<close> leaves the order of elements that compare equal open. The model sorts
  stably after a rearrangement \<open>tie\<close> of the list, which is ignored unless it is a
  permutation: every order that a sort can produce is the result for some \<open>tie\<close>.
\<close>

definition std_sort :: "('a::linorder list \<Rightarrow> 'a list) \<Rightarrow> ('a \<Rightarrow> 'a \<Rightarrow> bool) \<Rightarrow> 'a list \<Rightarrow> 'a list" where
  "std_sort tie lt xs = stable_sort lt (if sort (tie xs) = sort xs then tie xs else xs)"

text \<open>
  The comparator of the sort, \<open>cost(a) < cost(b)\<close> on signed integers. The sort reads the
  cost of every leaf, and a read out of bounds there fails the sort: the comparator is
  used only where both costs are defined.
\<close>

definition cost_value :: "klut_network \<Rightarrow> node \<Rightarrow> int" where
  "cost_value ntk n = (case cost ntk n of Inl e \<Rightarrow> 0 | Inr c \<Rightarrow> sint c)"

definition cost_less :: "klut_network \<Rightarrow> node \<Rightarrow> node \<Rightarrow> bool" where
  "cost_less ntk a b = (cost_value ntk a < cost_value ntk b)"

definition sort_leaves ::
  "(klut_network \<Rightarrow> node list \<Rightarrow> node list) \<Rightarrow> klut_network \<Rightarrow> node list \<Rightarrow> error + node list" where
  "sort_leaves tie ntk leaves =
     (case for_each (\<lambda>n u. case cost ntk n of Inl e \<Rightarrow> Inl e | Inr c \<Rightarrow> Inr u) leaves () of
        Inl e \<Rightarrow> Inl e
      | Inr u \<Rightarrow> Inr (std_sort (tie ntk) (cost_less ntk) leaves))"

text \<open>\<open>std::find_if\<close> for the first leaf that is not a primary input: its position.\<close>

fun find_non_pi :: "klut_network \<Rightarrow> node list \<Rightarrow> error + nat option" where
  "find_non_pi ntk [] = Inr None"
| "find_non_pi ntk (n # ns) =
     (case is_pi ntk n of
        Inl e \<Rightarrow> Inl e
      | Inr False \<Rightarrow> Inr (Some 0)
      | Inr True \<Rightarrow>
          (case find_non_pi ntk ns of
             Inl e \<Rightarrow> Inl e
           | Inr None \<Rightarrow> Inr None
           | Inr (Some i) \<Rightarrow> Inr (Some (Suc i))))"

text \<open>
  The body of the expansion loop, for the fanin \<open>child\<close> of the expanded node \<open>n\<close>: the
  child becomes a leaf and is marked when \<open>n\<close> is not a constant, the child is not a leaf
  yet and its scratch value is zero.
\<close>

definition add_leaf :: "node \<Rightarrow> signal \<Rightarrow> node list \<times> klut_network \<Rightarrow> error + (node list \<times> klut_network)" where
  "add_leaf n child s =
     (case s of (leaves, ntk) \<Rightarrow>
        if is_constant n \<or> child \<in> set leaves then Inr s
        else case node_value ntk child of
               Inl e \<Rightarrow> Inl e
             | Inr v \<Rightarrow>
                 if v \<noteq> 0 then Inr s
                 else (case set_value child 1 ntk of
                         Inl e \<Rightarrow> Inl e
                       | Inr ntk' \<Rightarrow> Inr (leaves @ [child], ntk')))"

definition expand :: "node \<Rightarrow> node list \<Rightarrow> klut_network \<Rightarrow> error + (node list \<times> klut_network)" where
  "expand n leaves ntk =
     (case foreach_fanin ntk n of
        Inl e \<Rightarrow> Inl e
      | Inr cs \<Rightarrow> for_each (add_leaf n) cs (leaves, ntk))"

text \<open>The number of nodes whose scratch value is zero.\<close>

definition unvisited :: "klut_network \<Rightarrow> nat" where
  "unvisited ntk = length (filter (\<lambda>n. data0_h2 n = 0) (nodes ntk))"

text \<open>
  The fanins that \<open>foreach_fanin\<close> visits at a node of the network, and the ones among them
  that \<open>cost\<close> counts.
\<close>

definition fanins :: "klut_network \<Rightarrow> node \<Rightarrow> signal list" where
  "fanins ntk n = (if n = 0 then [] else children (nodes ntk ! n))"




text \<open>
  \<open>compute_cut_recur\<close>. The sum \<open>cut.size() + c\<close> is computed in \<open>size_t\<close>, to which the
  signed cost is converted.
\<close>

function compute_cut_recur ::
  "(klut_network \<Rightarrow> node list \<Rightarrow> node list) \<Rightarrow> 32 word \<Rightarrow> node list \<Rightarrow> klut_network \<Rightarrow>
     error + (node list \<times> klut_network)" where
  "compute_cut_recur tie cut_size leaves ntk =
     (if length leaves > unat cut_size then Inl Assertion_failed
      else case sort_leaves tie ntk leaves of
        Inl e \<Rightarrow> Inl e
      | Inr srt \<Rightarrow>
          (case find_non_pi ntk srt of
             Inl e \<Rightarrow> Inl e
           | Inr None \<Rightarrow> Inr (srt, ntk)
           | Inr (Some it) \<Rightarrow>
               (case cost ntk (srt ! it) of
                  Inl e \<Rightarrow> Inl e
                | Inr c \<Rightarrow>
                    if (int (length srt) + sint c) mod 2 ^ 64 > uint cut_size
                    then Inr (srt, ntk)
                    else (case expand (srt ! it) (take it srt @ drop (Suc it) srt) ntk of
                            Inl e \<Rightarrow> Inl e
                          | Inr (leaves', ntk') \<Rightarrow> compute_cut_recur tie cut_size leaves' ntk'))))"
  by pat_completeness auto
termination
proof (relation "measure (\<lambda>(tie, cut_size, leaves, ntk). 2 * unvisited ntk + length leaves)")
  show "wf (measure (\<lambda>(tie, cut_size, leaves, ntk). 2 * unvisited ntk + length leaves))" by simp
next
  fix tie :: "klut_network \<Rightarrow> node list \<Rightarrow> node list" and cut_size :: "32 word"
    and leaves srt :: "node list" and ntk :: klut_network and x it c p leaves' ntk'
  assume s: "sort_leaves tie ntk leaves = Inr srt"
    and f: "find_non_pi ntk srt = Inr x" "x = Some it"
    and e: "expand (srt ! it) (take it srt @ drop (Suc it) srt) ntk = Inr p"
           "(leaves', ntk') = p"
  have ins: "length (stable_insert lt y ys) = Suc (length ys)"
    for lt :: "node \<Rightarrow> node \<Rightarrow> bool" and y ys
    by (induction ys) simp_all
  have sts: "length (stable_sort lt ys) = length ys" for lt :: "node \<Rightarrow> node \<Rightarrow> bool" and ys
    by (induction ys) (simp_all add: stable_sort_def ins)
  have tied: "length (tie ntk leaves) = length leaves" if "sort (tie ntk leaves) = sort leaves"
    using that length_sort [of "\<lambda>x. x" "tie ntk leaves"] length_sort [of "\<lambda>x. x" leaves] by simp
  have "srt = std_sort (tie ntk) (cost_less ntk) leaves"
    using s by (auto simp: sort_leaves_def split: sum.splits)
  then have ls: "length srt = length leaves" using tied by (simp add: std_sort_def sts)
  have found: "i < length ns" if "find_non_pi ntk ns = Inr (Some i)" for ns i
    using that
  proof (induction ns arbitrary: i)
    case Nil
    then show ?case by simp
  next
    case (Cons n ns)
    show ?case
    proof (cases i)
      case 0
      then show ?thesis by simp
    next
      case (Suc k)
      then have "find_non_pi ntk ns = Inr (Some k)"
        using Cons.prems by (auto split: sum.splits bool.splits option.splits)
      from Cons.IH [OF this] show ?thesis using Suc by simp
    qed
  qed
  have it: "it < length srt" using found f by simp
  have mark: "Suc (unvisited t') = unvisited t"
    if r: "n < length (nodes t)" and z: "data0_h2 (nodes t ! n) = 0"
      and sv: "set_value n 1 t = Inr t'" for n t t'
  proof -
    let ?P = "\<lambda>n. data0_h2 n = (0 :: 32 word)"
    let ?ns = "nodes t"
    have n': "nodes t' = ?ns[n := (?ns ! n)\<lparr>data0_h2 := 1\<rparr>]"
      using r sv by (auto simp: set_value_def)
    have a: "?ns = take n ?ns @ (?ns ! n) # drop (Suc n) ?ns"
      using r by (simp add: id_take_nth_drop)
    have b: "nodes t' = take n ?ns @ (?ns ! n)\<lparr>data0_h2 := 1\<rparr> # drop (Suc n) ?ns"
      unfolding n' using r by (simp add: upd_conv_take_nth_drop)
    have "unvisited t = length (filter ?P (take n ?ns @ (?ns ! n) # drop (Suc n) ?ns))"
      unfolding unvisited_def using a by simp
    moreover have "unvisited t' =
        length (filter ?P (take n ?ns @ (?ns ! n)\<lparr>data0_h2 := 1\<rparr> # drop (Suc n) ?ns))"
      unfolding unvisited_def b ..
    ultimately show ?thesis using z by simp
  qed
  have step: "2 * unvisited t' + length l' \<le> 2 * unvisited t + length l"
    if a: "add_leaf n child (l, t) = Inr (l', t')" for n child l t l' t'
  proof (cases "is_constant n \<or> child \<in> set l")
    case True
    then show ?thesis using a by (simp add: add_leaf_def)
  next
    case False
    then obtain v where v: "node_value t child = Inr v"
      using a by (cases "node_value t child") (simp_all add: add_leaf_def)
    then have r: "child < length (nodes t)" and vv: "v = data0_h2 (nodes t ! child)"
      by (auto simp: node_value_def split: if_splits)
    show ?thesis
    proof (cases "v = 0")
      case False
      then show ?thesis using a \<open>\<not> (is_constant n \<or> child \<in> set l)\<close> v
        by (simp add: add_leaf_def)
    next
      case True
      then obtain sv: "set_value child 1 t = Inr t'" and l: "l' = l @ [child]"
        using a \<open>\<not> (is_constant n \<or> child \<in> set l)\<close> v
        by (cases "set_value child 1 t") (simp_all add: add_leaf_def)
      have "Suc (unvisited t') = unvisited t" using mark [OF r _ sv] vv True by simp
      then show ?thesis using l by simp
    qed
  qed
  have loop: "2 * unvisited t' + length l' \<le> 2 * unvisited t + length l"
    if "for_each (add_leaf n) cs (l, t) = Inr (l', t')" for n cs l t l' t'
    using that
  proof (induction cs arbitrary: l t)
    case Nil
    then show ?case by simp
  next
    case (Cons c cs)
    from Cons.prems obtain l1 t1 where a: "add_leaf n c (l, t) = Inr (l1, t1)"
      and b: "for_each (add_leaf n) cs (l1, t1) = Inr (l', t')"
      by (cases "add_leaf n c (l, t)") auto
    from Cons.IH [OF b] step [OF a] show ?case by simp
  qed
  obtain cs where "for_each (add_leaf (srt ! it)) cs (take it srt @ drop (Suc it) srt, ntk)
      = Inr (leaves', ntk')"
    using e by (auto simp: expand_def split: sum.splits)
  then have "2 * unvisited ntk' + length leaves'
      \<le> 2 * unvisited ntk + length (take it srt @ drop (Suc it) srt)"
    by (rule loop)
  moreover have "Suc (length (take it srt @ drop (Suc it) srt)) = length leaves"
    using it ls by simp
  ultimately show "((tie, cut_size, leaves', ntk'), tie, cut_size, leaves, ntk)
      \<in> measure (\<lambda>(tie, cut_size, leaves, ntk). 2 * unvisited ntk + length leaves)"
    by simp
qed

text \<open>
  \<open>run\<close>, after the constructor, which asserts that there are pivots: the scratch values
  are cleared, the pivots are marked and become the first leaves.
\<close>

definition run ::
  "(klut_network \<Rightarrow> node list \<Rightarrow> node list) \<Rightarrow> 32 word \<Rightarrow> node list \<Rightarrow> klut_network \<Rightarrow>
     error + (node list \<times> klut_network)" where
  "run tie cut_size pivots ntk =
     (if pivots = [] then Inl Assertion_failed
      else case for_each (\<lambda>p. set_value p 1) pivots (clear_values ntk) of
        Inl e \<Rightarrow> Inl e
      | Inr ntk' \<Rightarrow> compute_cut_recur tie cut_size pivots ntk')"

subsection \<open>Reference-counting walks\<close>

text \<open>
  \<open>is_ci\<close>, \<open>is_ro\<close> and the cost function \<open>cost_fn\<close> of a node are not in the sources. They
  are parameters of the walks: two predicates on nodes and a 32-bit cost per node, none of
  which reads the scratch values.
\<close>

record mffc_env =
  is_ci :: "node \<Rightarrow> bool"
  is_ro :: "node \<Rightarrow> bool"
  cost_fn :: "node \<Rightarrow> 32 word"

text \<open>
  A loop over a list whose body may fail or run out of fuel (\<open>None\<close>); it stops at the
  first body that does.
\<close>

fun for_each_partial :: "('a \<Rightarrow> 's \<Rightarrow> (error + 's) option) \<Rightarrow> 'a list \<Rightarrow> 's \<Rightarrow> (error + 's) option" where
  "for_each_partial f [] s = Some (Inr s)"
| "for_each_partial f (x # xs) s =
     (case f x s of
        None \<Rightarrow> None
      | Some (Inl e) \<Rightarrow> Some (Inl e)
      | Some (Inr s') \<Rightarrow> for_each_partial f xs s')"

text \<open>
  The bodies of the loops over the fanins in \<open>recursive_deref\<close> and \<open>recursive_ref\<close>, with
  the accumulated \<open>value\<close> and the network as state, and \<open>recur\<close> for the recursive call:
  \<open>decr_value\<close> gives the value after the decrement, \<open>incr_value\<close> the one before the
  increment.
\<close>

definition deref_fanin ::
  "(node \<Rightarrow> klut_network \<Rightarrow> (error + 32 word \<times> klut_network) option) \<Rightarrow> signal \<Rightarrow>
     32 word \<times> klut_network \<Rightarrow> (error + 32 word \<times> klut_network) option" where
  "deref_fanin recur s st =
     (case st of (value, ntk) \<Rightarrow>
        (case decr_value s ntk of
           Inl e \<Rightarrow> Some (Inl e)
         | Inr (v, ntk1) \<Rightarrow>
             if v = 0 then
               (case recur s ntk1 of
                  None \<Rightarrow> None
                | Some (Inl e) \<Rightarrow> Some (Inl e)
                | Some (Inr (w, ntk2)) \<Rightarrow> Some (Inr (value + w, ntk2)))
             else Some (Inr (value, ntk1))))"

definition ref_fanin ::
  "(node \<Rightarrow> klut_network \<Rightarrow> (error + 32 word \<times> klut_network) option) \<Rightarrow> signal \<Rightarrow>
     32 word \<times> klut_network \<Rightarrow> (error + 32 word \<times> klut_network) option" where
  "ref_fanin recur s st =
     (case st of (value, ntk) \<Rightarrow>
        (case incr_value s ntk of
           Inl e \<Rightarrow> Some (Inl e)
         | Inr (v, ntk1) \<Rightarrow>
             if v = 0 then
               (case recur s ntk1 of
                  None \<Rightarrow> None
                | Some (Inl e) \<Rightarrow> Some (Inl e)
                | Some (Inr (w, ntk2)) \<Rightarrow> Some (Inr (value + w, ntk2)))
             else Some (Inr (value, ntk1))))"

text \<open>
  \<open>recursive_deref\<close> and \<open>recursive_ref\<close>, with fuel for the depth of the recursion: \<open>None\<close>
  when the fuel does not suffice.
\<close>

primrec recursive_deref ::
  "mffc_env \<Rightarrow> nat \<Rightarrow> node \<Rightarrow> klut_network \<Rightarrow> (error + 32 word \<times> klut_network) option" where
  "recursive_deref env 0 n ntk = None"
| "recursive_deref env (Suc fuel) n ntk =
     (if is_constant n \<or> is_ci env n \<or> is_ro env n then Some (Inr (0, ntk))
      else case foreach_fanin ntk n of
             Inl e \<Rightarrow> Some (Inl e)
           | Inr cs \<Rightarrow>
               for_each_partial (deref_fanin (recursive_deref env fuel)) cs (cost_fn env n, ntk))"

primrec recursive_ref ::
  "mffc_env \<Rightarrow> nat \<Rightarrow> node \<Rightarrow> klut_network \<Rightarrow> (error + 32 word \<times> klut_network) option" where
  "recursive_ref env 0 n ntk = None"
| "recursive_ref env (Suc fuel) n ntk =
     (if is_constant n \<or> is_ci env n \<or> is_ro env n then Some (Inr (0, ntk))
      else case foreach_fanin ntk n of
             Inl e \<Rightarrow> Some (Inl e)
           | Inr cs \<Rightarrow>
               for_each_partial (ref_fanin (recursive_ref env fuel)) cs (cost_fn env n, ntk))"

text \<open>
  For the proofs, both walks are instances of one walk over the values alone: the state is
  the accumulated cost and the scratch value of every node. A fanin whose value is
  \<open>ws_trigger\<close> is visited after its value became \<open>ws_trigger + ws_delta\<close>, any other value
  only has \<open>ws_delta\<close> added. The walk descends only along fanins of lower rank, which are
  all fanins in an acyclic network.
\<close>

type_synonym walk_state = "32 word \<times> (node \<Rightarrow> 32 word)"

record walk_spec =
  ws_rank :: "node \<Rightarrow> nat"
  ws_fanins :: "node \<Rightarrow> node list"
  ws_terminal :: "node \<Rightarrow> bool"
  ws_weight :: "node \<Rightarrow> 32 word"
  ws_trigger :: "32 word"
  ws_delta :: "32 word"

function walk :: "walk_spec \<Rightarrow> node \<Rightarrow> walk_state \<Rightarrow> walk_state" where
  "walk W n st =
     (if ws_terminal W n then st
      else fold (\<lambda>c st.
              if snd st c = ws_trigger W \<and> ws_rank W c < ws_rank W n
              then walk W c (fst st, (snd st)(c := ws_trigger W + ws_delta W))
              else (fst st, (snd st)(c := snd st c + ws_delta W)))
             (ws_fanins W n) (fst st + ws_weight W n, snd st))"
  by pat_completeness auto
termination
  by (relation "measure (\<lambda>(W, n, st). ws_rank W n)") auto

definition step :: "walk_spec \<Rightarrow> node \<Rightarrow> walk_state \<Rightarrow> walk_state" where
  "step W c st =
     (if snd st c = ws_trigger W
      then walk W c (fst st, (snd st)(c := ws_trigger W + ws_delta W))
      else (fst st, (snd st)(c := snd st c + ws_delta W)))"

definition shift :: "32 word \<Rightarrow> node \<Rightarrow> 32 word \<Rightarrow> walk_state \<Rightarrow> walk_state" where
  "shift k b v st = (fst st + k, (snd st)(b := v))"

definition descending :: "walk_spec \<Rightarrow> bool" where
  "descending W =
     (\<forall>n. \<not> ws_terminal W n \<longrightarrow> (\<forall>c \<in> set (ws_fanins W n). ws_rank W c < ws_rank W n))"

text \<open>The walk that undoes a walk.\<close>

definition opposite :: "walk_spec \<Rightarrow> walk_spec" where
  "opposite W =
     W\<lparr>ws_weight := \<lambda>n. - ws_weight W n, ws_trigger := ws_trigger W + ws_delta W,
       ws_delta := - ws_delta W\<rparr>"

text \<open>
  The scratch values of a network, and the network with other scratch values.
\<close>

definition values_of :: "klut_network \<Rightarrow> node \<Rightarrow> 32 word" where
  "values_of ntk i = data0_h2 (nodes ntk ! i)"

definition with_values :: "klut_network \<Rightarrow> (node \<Rightarrow> 32 word) \<Rightarrow> klut_network" where
  "with_values ntk s =
     ntk\<lparr>nodes := map (\<lambda>i. (nodes ntk ! i)\<lparr>data0_h2 := s i\<rparr>) [0..<length (nodes ntk)]\<rparr>"

text \<open>The nodes at which both walks return at once.\<close>

definition is_terminal :: "mffc_env \<Rightarrow> node \<Rightarrow> bool" where
  "is_terminal env n = (is_constant n \<or> is_ci env n \<or> is_ro env n)"

text \<open>
  The network is acyclic, as the spec has it: a rank decreases along the fanins of every
  node that the walks expand, and these fanins are nodes of the network.
\<close>

definition acyclic_by :: "mffc_env \<Rightarrow> (node \<Rightarrow> nat) \<Rightarrow> klut_network \<Rightarrow> bool" where
  "acyclic_by env rank ntk =
     (\<forall>n < length (nodes ntk). \<not> is_terminal env n \<longrightarrow>
        (\<forall>c \<in> set (fanins ntk n). c < length (nodes ntk) \<and> rank c < rank n))"

definition walk_of ::
  "mffc_env \<Rightarrow> (node \<Rightarrow> nat) \<Rightarrow> klut_network \<Rightarrow> 32 word \<Rightarrow> 32 word \<Rightarrow> 32 word \<Rightarrow> walk_spec" where
  "walk_of env rank ntk sg t d =
     \<lparr>ws_rank = rank,
      ws_fanins = (\<lambda>n. if n < length (nodes ntk) then fanins ntk n else []),
      ws_terminal = is_terminal env,
      ws_weight = (\<lambda>n. sg * cost_fn env n),
      ws_trigger = t, ws_delta = d\<rparr>"

section \<open>Node map\<close>

text \<open>
  C10: \<open>resize(init_value)\<close> leaves every previously stored value unchanged. When the
  network has grown, the backing store grows to the network's current size and only the
  new slots hold \<open>init_value\<close>; when the network's size is not larger than the store,
  the store is returned as it is (never shrunk, never reinitialised).
\<close>

theorem resize_frame:
  "(\<forall>i < length data. resize ntk v data ! i = data ! i) \<and>
   (size_ntk ntk > length data \<longrightarrow>
      length (resize ntk v data) = size_ntk ntk \<and>
      (\<forall>i. length data \<le> i \<and> i < size_ntk ntk \<longrightarrow> resize ntk v data ! i = v)) \<and>
   (size_ntk ntk \<le> length data \<longrightarrow> resize ntk v data = data)"
  by (auto simp: resize_def nth_append)

theorem resize_frame_witness:
  "resize klut_init 0 [7::nat] ! 0 = 7 \<and>
   length (resize klut_init 0 [7::nat]) = size_ntk klut_init \<and>
   resize klut_init 0 [7::nat] = [7, 0] \<and>
   resize klut_init 0 [1, 2, 3::nat] = [1, 2, 3]"
  using resize_frame [of "[7::nat]" klut_init 0] resize_frame [of "[1, 2, 3::nat]" klut_init 0]
  by (simp add: resize_def size_ntk_def klut_init_def Let_def)

section \<open>Conflict graph\<close>

lemma erase_from_Inr:
  "\<forall>w \<in> set ws. w < length adj \<Longrightarrow>
   \<exists>adj'. erase_from v ws adj = Inr adj' \<and> length adj' = length adj \<and>
     (\<forall>i < length adj. adj' ! i = (if i \<in> set ws then removeAll v (adj ! i) else adj ! i))"
proof (induction ws arbitrary: adj)
  case Nil
  then show ?case by simp
next
  case (Cons w ws)
  let ?a = "adj[w := set_erase v (adj ! w)]"
  have "\<forall>x \<in> set ws. x < length ?a" using Cons.prems by simp
  from Cons.IH [OF this] obtain adj' where
    r: "erase_from v ws ?a = Inr adj'" and l: "length adj' = length ?a"
    and n: "\<forall>i < length ?a. adj' ! i = (if i \<in> set ws then removeAll v (?a ! i) else ?a ! i)"
    by blast
  have "erase_from v (w # ws) adj = Inr adj'" using r Cons.prems by simp
  moreover have "length adj' = length adj" using l by simp
  moreover have "\<forall>i < length adj. adj' ! i = (if i \<in> set (w # ws) then removeAll v (adj ! i) else adj ! i)"
    using n Cons.prems by (auto simp: set_erase_def nth_list_update)
  ultimately show ?case by blast
qed

lemma sum_list_map_nth: "sum_list (map f xs) = (\<Sum>i = 0..<length xs. f (xs ! i))"
  by (simp add: sum_list_sum_nth)

lemma total_update:
  "k < length adj \<Longrightarrow>
   sum_list (map length (adj[k := ys])) = sum_list (map length adj) + length ys - length (adj ! k)"
  by (simp add: map_update sum_list_update)

lemma set_set_insert: "set (set_insert x xs) = insert x (set xs)"
  by (auto simp: set_insert_def set_insort_key)

lemma distinct_set_insert: "distinct xs \<Longrightarrow> distinct (set_insert x xs)"
  by (auto simp: set_insert_def distinct_insort)

lemma length_set_insert: "x \<notin> set xs \<Longrightarrow> length (set_insert x xs) = Suc (length xs)"
  by (simp add: set_insert_def)

lemma graph_inv_add_vertex:
  assumes inv: "graph_inv g" and w: "0 \<le> sint w"
  shows "graph_inv (snd (add_vertex w g))"
proof -
  let ?g = "g\<lparr>weights := weights g @ [w], adjacent := adjacent g @ [[]],
               num_vertices := num_vertices g + 1\<rparr>"
  have len: "length (adjacent g) = length (weights g)" using inv by (simp add: graph_inv_def)
  have S: "\<And>v x. v < length (adjacent g) \<Longrightarrow> x \<in> set (adjacent g ! v) \<Longrightarrow>
      x < length (adjacent g) \<and> v \<in> set (adjacent g ! x)"
    using inv unfolding graph_inv_def adjacency_symmetric_def by blast
  have d: "\<forall>v < length (adjacent ?g). distinct (adjacent ?g ! v)"
    using inv unfolding graph_inv_def by (simp add: nth_append)
  have sym: "adjacency_symmetric ?g"
    unfolding adjacency_symmetric_def
  proof (intro allI impI ballI)
    fix v x assume v: "v < length (adjacent ?g)" and x: "x \<in> set (adjacent ?g ! v)"
    have v': "v < length (adjacent g)" using v x by (cases "v < length (adjacent g)") (simp_all add: nth_append)
    then have "x \<in> set (adjacent g ! v)" using x by (simp add: nth_append)
    from S [OF v' this] show "x < length (adjacent ?g) \<and> v \<in> set (adjacent ?g ! x)"
      by (simp add: nth_append)
  qed
  have irr: "adjacency_irreflexive ?g"
    using inv unfolding graph_inv_def adjacency_irreflexive_def by (simp add: nth_append)
  have rem: "removed_isolated ?g"
    using inv w len unfolding graph_inv_def removed_isolated_def has_vertex_def
    by (simp add: nth_append less_Suc_eq)
  have cnt: "num_vertices ?g = of_nat (count_present ?g)"
    using inv w unfolding graph_inv_def by (simp add: count_present_def)
  have tot: "num_edges ?g = of_nat (adjacency_total ?g div 2)"
    using inv unfolding graph_inv_def by (simp add: adjacency_total_def)
  have ev: "even (adjacency_total ?g)"
    using inv unfolding graph_inv_def by (simp add: adjacency_total_def)
  have "graph_inv ?g"
    unfolding graph_inv_def using len d sym irr rem cnt tot ev by simp
  then show ?thesis by (simp add: add_vertex_def)
qed

lemma present_in_range: "graph_inv g \<Longrightarrow> present g v \<Longrightarrow> v < length (adjacent g)"
  by (simp add: graph_inv_def present_def)

lemma graph_inv_add_edge:
  assumes inv: "graph_inv g" and p1: "present g v1" and p2: "present g v2"
  shows "\<exists>g'. add_edge v1 v2 g = Inr g' \<and> graph_inv g' \<and> weights g' = weights g"
proof -
  have r1: "v1 < length (adjacent g)" and r2: "v2 < length (adjacent g)"
    using present_in_range [OF inv] p1 p2 by auto
  show ?thesis
  proof (cases "v1 = v2 \<or> v2 \<in> set (adjacent g ! v1)")
    case True
    then show ?thesis using inv r1 by (auto simp: add_edge_def)
  next
    case False
    then have ne: "v1 \<noteq> v2" and n12: "v2 \<notin> set (adjacent g ! v1)" by auto
    have n21: "v1 \<notin> set (adjacent g ! v2)"
      using inv r1 r2 n12 unfolding graph_inv_def adjacency_symmetric_def by blast
    let ?a1 = "(adjacent g)[v1 := set_insert v2 (adjacent g ! v1)]"
    let ?a2 = "?a1[v2 := set_insert v1 (adjacent g ! v2)]"
    let ?g = "g\<lparr>adjacent := ?a2, num_edges := num_edges g + 1\<rparr>"
    have eq: "add_edge v1 v2 g = Inr ?g"
      using ne n12 r1 r2 by (simp add: add_edge_def Let_def)
    have nth: "\<And>i. i < length (adjacent g) \<Longrightarrow> set (?a2 ! i) =
        (if i = v1 then insert v2 (set (adjacent g ! i))
         else if i = v2 then insert v1 (set (adjacent g ! i)) else set (adjacent g ! i))"
      using ne by (auto simp: nth_list_update set_set_insert)
    have dist: "\<forall>i < length ?a2. distinct (?a2 ! i)"
    proof (intro allI impI)
      fix i assume "i < length ?a2"
      then have "distinct (adjacent g ! i)" using inv unfolding graph_inv_def by simp
      then show "distinct (?a2 ! i)"
        by (cases "i = v1"; cases "i = v2") (simp_all add: nth_list_update distinct_set_insert r1 r2)
    qed
    have tot: "sum_list (map length ?a2) = sum_list (map length (adjacent g)) + 2"
    proof -
      have a: "sum_list (map length ?a1) = sum_list (map length (adjacent g)) + 1"
        using r1 n12 by (simp add: total_update length_set_insert member_le_sum_list)
      have "sum_list (map length ?a2) = sum_list (map length ?a1) + length (set_insert v1 (adjacent g ! v2)) - length (?a1 ! v2)"
        using r2 by (simp add: total_update)
      then show ?thesis using a ne n21 by (simp add: length_set_insert)
    qed
    have S: "\<And>v w. v < length (adjacent g) \<Longrightarrow> w \<in> set (adjacent g ! v) \<Longrightarrow>
        w < length (adjacent g) \<and> v \<in> set (adjacent g ! w)"
      using inv unfolding graph_inv_def adjacency_symmetric_def by blast
    have sym: "adjacency_symmetric ?g"
      unfolding adjacency_symmetric_def
    proof (intro allI impI ballI)
      fix v w assume v: "v < length (adjacent ?g)" and w: "w \<in> set (adjacent ?g ! v)"
      have v': "v < length (adjacent g)" using v by simp
      have "w \<in> set (?a2 ! v)" using w by simp
      then have c: "(v = v1 \<and> w = v2) \<or> (v = v2 \<and> w = v1) \<or> w \<in> set (adjacent g ! v)"
        unfolding nth [OF v'] by (auto split: if_splits)
      then have wl: "w < length (adjacent g)" using S [OF v'] r1 r2 by blast
      have "v \<in> set (?a2 ! w)"
        unfolding nth [OF wl] using c S [OF v'] by auto
      then show "w < length (adjacent ?g) \<and> v \<in> set (adjacent ?g ! w)" using wl by simp
    qed
    have irr: "adjacency_irreflexive ?g"
      unfolding adjacency_irreflexive_def
    proof (intro allI impI)
      fix v assume v: "v < length (adjacent ?g)"
      then have v': "v < length (adjacent g)" by simp
      have "v \<notin> set (adjacent g ! v)"
        using inv v' unfolding graph_inv_def adjacency_irreflexive_def by blast
      then have "v \<notin> set (?a2 ! v)" unfolding nth [OF v'] using ne by auto
      then show "v \<notin> set (adjacent ?g ! v)" by simp
    qed
    have rem: "removed_isolated ?g"
      unfolding removed_isolated_def
    proof (intro allI impI)
      fix v assume v: "v < length (weights ?g)" and h: "\<not> has_vertex ?g v"
      have h': "\<not> has_vertex g v" using h by (simp add: has_vertex_def)
      have v': "v < length (weights g)" using v by simp
      have "v \<noteq> v1" "v \<noteq> v2" using h' p1 p2 by (auto simp: present_def)
      moreover have "weights g ! v = - 1 \<and> v < length (adjacent g) \<and> adjacent g ! v = []"
        using inv v' h' unfolding graph_inv_def removed_isolated_def by blast
      ultimately show "weights ?g ! v = - 1 \<and> v < length (adjacent ?g) \<and> adjacent ?g ! v = []"
        by simp
    qed
    have "graph_inv ?g"
      using inv dist tot sym irr rem
      unfolding graph_inv_def by (simp add: count_present_def adjacency_total_def)
    then show ?thesis using eq by simp
  qed
qed

lemma length_filter_update:
  "i < length xs \<Longrightarrow> P (xs ! i) \<Longrightarrow> \<not> P y \<Longrightarrow>
   Suc (length (filter P (xs[i := y]))) = length (filter P xs)"
proof (induction xs arbitrary: i)
  case Nil
  then show ?case by simp
next
  case (Cons x xs)
  show ?case
  proof (cases i)
    case 0
    then show ?thesis using Cons.prems by simp
  next
    case (Suc j)
    then have "Suc (length (filter P (xs[j := y]))) = length (filter P xs)"
      using Cons.IH [of j] Cons.prems by simp
    then show ?thesis using Suc by simp
  qed
qed

lemma length_removeAll_distinct:
  "distinct xs \<Longrightarrow> length (removeAll v xs) + (if v \<in> set xs then 1 else 0) = length xs"
  by (induction xs) auto

lemma sum_indicator_card:
  assumes a: "A \<subseteq> {0..<n::nat}"
  shows "(\<Sum>i = 0..<n. if i \<in> A then 1 else 0) = card A"
proof -
  have "(\<Sum>i = 0..<n. if i \<in> A then 1 else (0::nat)) = sum (\<lambda>_. 1) ({0..<n} \<inter> A)"
    by (rule sum.inter_restrict [symmetric]) simp
  moreover have "{0..<n} \<inter> A = A" using a by blast
  ultimately show ?thesis by simp
qed

lemma removed_total:
  assumes len: "length adj' = length adj" and v: "v < length adj"
    and d: "\<forall>i < length adj. distinct (adj ! i)"
    and sym: "\<forall>i < length adj. \<forall>w \<in> set (adj ! i). w < length adj \<and> i \<in> set (adj ! w)"
    and irr: "v \<notin> set (adj ! v)"
    and nth: "\<forall>i < length adj. adj' ! i = (if i = v then [] else removeAll v (adj ! i))"
  shows "sum_list (map length adj') + 2 * length (adj ! v) = sum_list (map length adj)"
proof -
  let ?n = "length adj"
  let ?A = "set (adj ! v)"
  let ?h1 = "\<lambda>i. if i = v then length (adj ! v) else 0"
  let ?h2 = "\<lambda>i. if i \<in> ?A then 1 else (0::nat)"
  have A: "?A \<subseteq> {0..<?n}"
  proof
    fix w assume "w \<in> ?A"
    then have "w < ?n" using sym v by blast
    then show "w \<in> {0..<?n}" by simp
  qed
  have tm: "length (adj' ! i) + (?h1 i + ?h2 i) = length (adj ! i)" if i: "i < ?n" for i
  proof (cases "i = v")
    case True
    then show ?thesis using nth i irr by simp
  next
    case False
    have e: "(v \<in> set (adj ! i)) = (i \<in> ?A)" using sym i v by blast
    have a: "adj' ! i = removeAll v (adj ! i)" using nth i False by simp
    have "distinct (adj ! i)" using d i by simp
    from length_removeAll_distinct [OF this, of v] show ?thesis
      unfolding a e using False by simp
  qed
  have s1: "(\<Sum>i = 0..<?n. ?h1 i) = length (adj ! v)"
    using v by (simp add: sum.delta)
  have s2: "(\<Sum>i = 0..<?n. ?h2 i) = length (adj ! v)"
    using sum_indicator_card [OF A] d v by (simp add: distinct_card)
  have "sum_list (map length adj) = (\<Sum>i = 0..<?n. length (adj ! i))"
    by (rule sum_list_map_nth)
  also have "\<dots> = (\<Sum>i = 0..<?n. length (adj' ! i) + (?h1 i + ?h2 i))"
    by (rule sum.cong) (simp_all only: tm atLeastLessThan_iff)
  also have "\<dots> = (\<Sum>i = 0..<?n. length (adj' ! i)) + ((\<Sum>i = 0..<?n. ?h1 i) + (\<Sum>i = 0..<?n. ?h2 i))"
    by (simp only: sum.distrib)
  also have "(\<Sum>i = 0..<?n. length (adj' ! i)) = sum_list (map length adj')"
    using sum_list_map_nth [of length adj'] len by simp
  finally show ?thesis unfolding s1 s2 by simp
qed

lemma graph_inv_remove_vertex:
  assumes inv: "graph_inv g" and p: "present g v"
  shows "\<exists>g'. remove_vertex v g = Inr g' \<and> graph_inv g' \<and>
           weights g' = (weights g)[v := - 1] \<and>
           length (adjacent g') = length (adjacent g) \<and>
           (\<forall>i < length (adjacent g).
              adjacent g' ! i = (if i = v then [] else removeAll v (adjacent g ! i)))"
proof -
  let ?adj = "adjacent g"
  let ?n = "length ?adj"
  have len: "?n = length (weights g)" using inv by (simp add: graph_inv_def)
  have v: "v < ?n" using present_in_range [OF inv p] .
  have pos: "0 \<le> sint (weights g ! v)" using p by (simp add: present_def has_vertex_def)
  have wv: "weights g ! v \<noteq> - 1"
  proof
    assume "weights g ! v = - 1"
    then have "sint (weights g ! v) = - 1" by simp
    then show False using pos by simp
  qed
  have S: "\<forall>i < ?n. \<forall>w \<in> set (?adj ! i). w < ?n \<and> i \<in> set (?adj ! w)"
    using inv unfolding graph_inv_def adjacency_symmetric_def by blast
  have D: "\<forall>i < ?n. distinct (?adj ! i)" using inv unfolding graph_inv_def by blast
  have I: "\<forall>i < ?n. i \<notin> set (?adj ! i)"
    using inv unfolding graph_inv_def adjacency_irreflexive_def by blast
  have R: "\<forall>u < ?n. \<not> has_vertex g u \<longrightarrow> weights g ! u = - 1 \<and> ?adj ! u = []"
    using inv len unfolding graph_inv_def removed_isolated_def by simp
  have "\<forall>w \<in> set (?adj ! v). w < ?n" using S v by blast
  from erase_from_Inr [OF this, of v] obtain adj1 where
    e: "erase_from v (?adj ! v) ?adj = Inr adj1" and l1: "length adj1 = ?n"
    and n1: "\<forall>i < ?n. adj1 ! i = (if i \<in> set (?adj ! v) then removeAll v (?adj ! i) else ?adj ! i)"
    by blast
  define adj' where "adj' = adj1[v := []]"
  let ?g = "g\<lparr>weights := (weights g)[v := - 1],
               num_edges := num_edges g - of_nat (length (?adj ! v)),
               adjacent := adj', num_vertices := num_vertices g - 1\<rparr>"
  have eq: "remove_vertex v g = Inr ?g"
    using v len wv e by (simp add: remove_vertex_def adj'_def)
  have nth: "\<forall>i < ?n. adj' ! i = (if i = v then [] else removeAll v (?adj ! i))"
  proof (intro allI impI)
    fix i assume i: "i < ?n"
    show "adj' ! i = (if i = v then [] else removeAll v (?adj ! i))"
    proof (cases "i = v")
      case True
      then show ?thesis using l1 v by (simp add: adj'_def)
    next
      case False
      have a: "adj' ! i = adj1 ! i" using False by (simp add: adj'_def)
      show ?thesis
      proof (cases "i \<in> set (?adj ! v)")
        case True
        then show ?thesis using a n1 i False by simp
      next
        case nin: False
        then have "v \<notin> set (?adj ! i)" using S i v by blast
        then have "removeAll v (?adj ! i) = ?adj ! i" by simp
        then show ?thesis using a n1 i False nin by simp
      qed
    qed
  qed
  have l': "length adj' = ?n" using l1 by (simp add: adj'_def)
  have d': "\<forall>i < length (adjacent ?g). distinct (adjacent ?g ! i)"
    using nth D l' by (simp add: distinct_removeAll)
  have sym': "adjacency_symmetric ?g"
    unfolding adjacency_symmetric_def
  proof (intro allI impI ballI)
    fix i w assume i: "i < length (adjacent ?g)" and w: "w \<in> set (adjacent ?g ! i)"
    have i': "i < ?n" using i l' by simp
    have w': "w \<in> set (if i = v then [] else removeAll v (?adj ! i))"
      using w nth i' by simp
    then have iv: "i \<noteq> v" and wv': "w \<noteq> v" and wi: "w \<in> set (?adj ! i)"
      by (auto split: if_splits)
    from S i' wi have wn: "w < ?n" and iw: "i \<in> set (?adj ! w)" by blast+
    have "i \<in> set (adj' ! w)" using nth wn wv' iw iv by simp
    then show "w < length (adjacent ?g) \<and> i \<in> set (adjacent ?g ! w)" using wn l' by simp
  qed
  have irr': "adjacency_irreflexive ?g"
    unfolding adjacency_irreflexive_def
  proof (intro allI impI)
    fix i assume "i < length (adjacent ?g)"
    then have i': "i < ?n" using l' by simp
    then have "i \<notin> set (adj' ! i)" using nth I by simp
    then show "i \<notin> set (adjacent ?g ! i)" by simp
  qed
  have rem': "removed_isolated ?g"
    unfolding removed_isolated_def
  proof (intro allI impI)
    fix u assume u: "u < length (weights ?g)" and h: "\<not> has_vertex ?g u"
    have u': "u < ?n" using u len by simp
    show "weights ?g ! u = - 1 \<and> u < length (adjacent ?g) \<and> adjacent ?g ! u = []"
    proof (cases "u = v")
      case True
      then show ?thesis using v len l' nth by simp
    next
      case False
      then have "\<not> has_vertex g u" using h by (simp add: has_vertex_def)
      then have "weights g ! u = - 1 \<and> ?adj ! u = []" using R u' by blast
      then show ?thesis using False u' l' nth by simp
    qed
  qed
  define k where "k = length (filter (\<lambda>w. 0 \<le> sint w) ((weights g)[v := - 1]))"
  have ck: "count_present ?g = k" by (simp add: count_present_def k_def)
  have c: "Suc k = count_present g"
    unfolding count_present_def k_def
    using length_filter_update [of v "weights g" "\<lambda>w. 0 \<le> sint w" "- 1"] v len pos
    by simp
  have "num_vertices g = of_nat (count_present g)" using inv by (simp add: graph_inv_def)
  then have "num_vertices g = of_nat k + 1" unfolding c [symmetric] by (simp add: add.commute)
  then have cnt: "num_vertices ?g = of_nat (count_present ?g)" unfolding ck by simp
  define m where "m = sum_list (map length adj')"
  have cm: "adjacency_total ?g = m" by (simp add: adjacency_total_def m_def)
  have t: "m + 2 * length (?adj ! v) = sum_list (map length ?adj)"
    unfolding m_def by (rule removed_total [OF l' v D S _ nth]) (use I v in blast)
  have t2: "adjacency_total g div 2 = m div 2 + length (?adj ! v)"
    unfolding adjacency_total_def using t by simp
  have "num_edges g = of_nat (adjacency_total g div 2)" using inv by (simp add: graph_inv_def)
  then have "num_edges g = of_nat (m div 2) + of_nat (length (?adj ! v))"
    unfolding t2 by simp
  then have tot: "num_edges ?g = of_nat (adjacency_total ?g div 2)" unfolding cm by simp
  have "even (sum_list (map length ?adj))" using inv by (simp add: graph_inv_def adjacency_total_def)
  then have "even m" unfolding t [symmetric] by simp
  then have ev: "even (adjacency_total ?g)" unfolding cm .
  have "graph_inv ?g"
    unfolding graph_inv_def using len l' d' sym' irr' rem' cnt tot ev by simp
  then show ?thesis using eq nth l' by simp
qed


lemma graph_inv_empty: "graph_inv empty_graph"
  by (simp add: graph_inv_def empty_graph_def adjacency_symmetric_def adjacency_irreflexive_def
      removed_isolated_def count_present_def adjacency_total_def)

lemma graph_step_inv:
  assumes "graph_inv g"
    and "case x of Add_vertex w \<Rightarrow> 0 \<le> sint w
         | Add_edge v1 v2 \<Rightarrow> present g v1 \<and> present g v2
         | Remove_vertex v \<Rightarrow> present g v"
  shows "\<exists>g'. graph_step x g = Inr g' \<and> graph_inv g'"
proof (cases x)
  case (Add_vertex w)
  then show ?thesis using assms graph_inv_add_vertex by simp
next
  case (Add_edge v1 v2)
  then show ?thesis using assms graph_inv_add_edge [of g v1 v2] by auto
next
  case (Remove_vertex v)
  then show ?thesis using assms graph_inv_remove_vertex [of g v] by auto
qed

lemma graph_run_inv:
  "graph_inv g \<Longrightarrow> calls_present ops g \<Longrightarrow> \<exists>g'. graph_run ops g = Inr g' \<and> graph_inv g'"
proof (induction ops arbitrary: g)
  case Nil
  then show ?case by simp
next
  case (Cons x xs)
  from Cons.prems have
    "case x of Add_vertex w \<Rightarrow> 0 \<le> sint w
     | Add_edge v1 v2 \<Rightarrow> present g v1 \<and> present g v2
     | Remove_vertex v \<Rightarrow> present g v"
    by simp
  from graph_step_inv [OF Cons.prems(1) this] obtain g1 where
    s: "graph_step x g = Inr g1" and i: "graph_inv g1" by blast
  have "calls_present xs g1" using Cons.prems(2) s by simp
  from Cons.IH [OF i this] show ?case using s by simp
qed

lemma distinct_bounded_length:
  "distinct xs \<Longrightarrow> \<forall>x \<in> set xs. x < (n::nat) \<Longrightarrow> length xs \<le> n"
proof -
  assume d: "distinct xs" and b: "\<forall>x \<in> set xs. x < n"
  have "card (set xs) \<le> card {0..<n}" by (rule card_mono) (use b in auto)
  then show ?thesis using d by (simp add: distinct_card)
qed

lemma graph_inv_total_bound:
  assumes "graph_inv g"
  shows "adjacency_total g \<le> length (weights g) * length (weights g)"
proof -
  let ?n = "length (adjacent g)"
  have len: "?n = length (weights g)" using assms by (simp add: graph_inv_def)
  have "length (adjacent g ! i) \<le> ?n" if "i < ?n" for i
  proof (rule distinct_bounded_length)
    show "distinct (adjacent g ! i)" using assms that by (simp add: graph_inv_def)
    show "\<forall>x \<in> set (adjacent g ! i). x < ?n"
      using assms that unfolding graph_inv_def adjacency_symmetric_def by blast
  qed
  then have "(\<Sum>i = 0..<?n. length (adjacent g ! i)) \<le> (\<Sum>i = 0..<?n. ?n)"
    by (intro sum_mono) simp
  then show ?thesis unfolding adjacency_total_def sum_list_map_nth len by simp
qed

lemma graph_inv_counts:
  assumes inv: "graph_inv g" and n: "length (weights g) < 2 ^ 32"
  shows "unat (num_vertices g) = count_present g"
    and "2 * unat (num_edges g) = adjacency_total g"
proof -
  have "count_present g \<le> length (weights g)" by (simp add: count_present_def)
  then have "count_present g < 2 ^ 32" using n by simp
  then show "unat (num_vertices g) = count_present g"
    using inv by (simp add: graph_inv_def unat_of_nat)
  have "length (weights g) * length (weights g) < 2 ^ 32 * 2 ^ 32"
    using n by (intro mult_strict_mono') simp_all
  then have "adjacency_total g < 2 ^ 64" using graph_inv_total_bound [OF inv] by simp
  then have "adjacency_total g div 2 < 2 ^ 64" by simp
  then have "unat (num_edges g) = adjacency_total g div 2"
    using inv by (simp add: graph_inv_def unat_of_nat)
  then show "2 * unat (num_edges g) = adjacency_total g"
    using inv by (simp add: graph_inv_def)
qed

text \<open>
  C9, as amended: after any sequence of \<open>add_vertex\<close>, \<open>add_edge\<close> and
  \<open>remove_vertex\<close> calls on an empty graph in which every added weight is non-negative
  as \<open>int32_t\<close>, every edge joins two present vertices and only present vertices are
  removed, no call fails, the adjacency relation is symmetric and irreflexive, a removed
  vertex has an empty adjacency list and weight -1, \<open>num_vertices\<close> is the number of
  indices with non-negative weight and \<open>num_edges\<close> is half the (even) sum of the
  adjacency-list sizes; both counters are exact below \<open>2^32\<close> vertices and hold modulo
  the counter widths in general.
\<close>

theorem graph_invariants:
  assumes "calls_present ops empty_graph"
  shows "\<exists>g. graph_run ops empty_graph = Inr g \<and>
           adjacency_symmetric g \<and> adjacency_irreflexive g \<and> removed_isolated g \<and>
           num_vertices g = of_nat (count_present g) \<and>
           num_edges g = of_nat (adjacency_total g div 2) \<and>
           even (adjacency_total g) \<and>
           (length (weights g) < 2 ^ 32 \<longrightarrow>
              unat (num_vertices g) = count_present g \<and>
              2 * unat (num_edges g) = adjacency_total g)"
proof -
  from graph_run_inv [OF graph_inv_empty assms] obtain g where
    r: "graph_run ops empty_graph = Inr g" and i: "graph_inv g" by blast
  show ?thesis
    using r i graph_inv_counts [OF i] unfolding graph_inv_def by blast
qed

lemmas graph_eval = empty_graph_def add_vertex_def add_edge_def remove_vertex_def
  set_insert_def set_erase_def present_def has_vertex_def

theorem graph_invariants_witness:
  "calls_present [Add_vertex 5, Add_vertex 3, Add_vertex 2, Add_edge 0 1, Add_edge 1 2,
      Remove_vertex 1] empty_graph \<and>
   graph_run [Add_vertex 5, Add_vertex 3, Add_vertex 2, Add_edge 0 1, Add_edge 1 2,
      Remove_vertex 1] empty_graph =
     Inr \<lparr>num_vertices = 2, num_edges = 0, adjacent = [[], [], []], weights = [5, - 1, 2]\<rparr> \<and>
   removed_isolated \<lparr>num_vertices = 2, num_edges = 0, adjacent = [[], [], []],
      weights = [5, - 1, 2]\<rparr> \<and>
   count_present \<lparr>num_vertices = 2, num_edges = 0, adjacent = [[], [], []],
      weights = [5, - 1, 2]\<rparr> = 2"
proof -
  let ?ops = "[Add_vertex 5, Add_vertex 3, Add_vertex 2, Add_edge 0 1, Add_edge 1 2, Remove_vertex 1]"
  have h: "calls_present ?ops empty_graph" by (simp add: graph_eval)
  have r: "graph_run ?ops empty_graph =
     Inr \<lparr>num_vertices = 2, num_edges = 0, adjacent = [[], [], []], weights = [5, - 1, 2]\<rparr>"
    by (simp add: graph_eval)
  from graph_invariants [OF h] show ?thesis unfolding r using h by simp
qed

text \<open>
  The claim as stated, with only the removals restricted to present vertices, fails: an
  edge added to a removed vertex leaves it with a non-empty adjacency list, and a weight
  that is negative as \<open>int32_t\<close> is counted by \<open>num_vertices\<close> although the vertex is
  not present.
\<close>

theorem graph_claim_counterexample:
  "removals_present [Add_vertex 1, Add_vertex 1, Remove_vertex 0, Add_edge 0 1] empty_graph \<and>
   graph_run [Add_vertex 1, Add_vertex 1, Remove_vertex 0, Add_edge 0 1] empty_graph =
     Inr \<lparr>num_vertices = 1, num_edges = 1, adjacent = [[1], [0]], weights = [- 1, 1]\<rparr> \<and>
   \<not> removed_isolated \<lparr>num_vertices = 1, num_edges = 1, adjacent = [[1], [0]],
      weights = [- 1, 1]\<rparr> \<and>
   removals_present [Add_vertex (- 1)] empty_graph \<and>
   graph_run [Add_vertex (- 1)] empty_graph =
     Inr \<lparr>num_vertices = 1, num_edges = 0, adjacent = [[]], weights = [- 1]\<rparr> \<and>
   count_present \<lparr>num_vertices = 1, num_edges = 0, adjacent = [[]], weights = [- 1]\<rparr> = 0"
  by (simp add: graph_eval removed_isolated_def count_present_def All_less_Suc Ex_less_Suc)

section \<open>Independent-set selection\<close>

lemma present_adjacent:
  assumes inv: "graph_inv g" and u: "u < length (adjacent g)" and x: "x \<in> set (adjacent g ! u)"
  shows "present g x \<and> present g u"
proof -
  have S: "x < length (adjacent g) \<and> u \<in> set (adjacent g ! x)"
    using inv u x unfolding graph_inv_def adjacency_symmetric_def by blast
  have len: "length (adjacent g) = length (weights g)" using inv by (simp add: graph_inv_def)
  have R: "\<And>v. v < length (weights g) \<Longrightarrow> \<not> has_vertex g v \<Longrightarrow> adjacent g ! v = []"
    using inv unfolding graph_inv_def removed_isolated_def by blast
  have "has_vertex g x"
  proof (rule ccontr)
    assume "\<not> has_vertex g x"
    then have "adjacent g ! x = []" using R [of x] S len by simp
    then show False using S by simp
  qed
  moreover have "has_vertex g u"
  proof (rule ccontr)
    assume "\<not> has_vertex g u"
    then have "adjacent g ! u = []" using R [of u] u len by simp
    then show False using x by simp
  qed
  ultimately show ?thesis using S u len by (simp add: present_def)
qed

lemma restricts_refl: "graph_inv g \<Longrightarrow> restricts g g"
  unfolding restricts_def using present_adjacent present_in_range by blast

lemma remove_vertex_step:
  assumes inv: "graph_inv g" and r: "restricts g0 g" and p: "present g v"
  shows "\<exists>g'. remove_vertex v g = Inr g' \<and> graph_inv g' \<and> restricts g0 g' \<and>
           (\<forall>x. present g' x = (present g x \<and> x \<noteq> v))"
proof -
  from graph_inv_remove_vertex [OF inv p] obtain g' where
    e: "remove_vertex v g = Inr g'" and i: "graph_inv g'"
    and w: "weights g' = (weights g)[v := - 1]"
    and l: "length (adjacent g') = length (adjacent g)"
    and n: "\<forall>i < length (adjacent g). adjacent g' ! i = (if i = v then [] else removeAll v (adjacent g ! i))"
    by blast
  have vr: "v < length (weights g)" using p by (simp add: present_def)
  have pr: "present g' x = (present g x \<and> x \<noteq> v)" for x
    using w vr by (cases "x = v") (simp_all add: present_def has_vertex_def)
  have "restricts g0 g'"
    unfolding restricts_def
  proof (intro conjI allI impI)
    show "length (weights g') = length (weights g0)" using w r by (simp add: restricts_def)
    fix u assume u: "present g' u"
    then have ug: "present g u" and uv: "u \<noteq> v" using pr by auto
    then show "present g0 u" using r by (simp add: restricts_def)
    show "weights g' ! u = weights g0 ! u" using w uv r ug by (simp add: restricts_def)
    have ul: "u < length (adjacent g)" using present_in_range [OF inv ug] .
    have "set (adjacent g' ! u) = set (adjacent g ! u) - {v}" using n ul uv by simp
    also have "set (adjacent g ! u) = {x \<in> set (adjacent g0 ! u). present g x}"
      using r ug by (simp add: restricts_def)
    finally show "set (adjacent g' ! u) = {x \<in> set (adjacent g0 ! u). present g' x}"
      using pr by auto
  qed
  then show ?thesis using e i pr by blast
qed

lemma remove_vertices_step:
  "graph_inv g \<Longrightarrow> restricts g0 g \<Longrightarrow> distinct vs \<Longrightarrow> \<forall>v \<in> set vs. present g v \<Longrightarrow>
   \<exists>g'. remove_vertices vs g = Inr g' \<and> graph_inv g' \<and> restricts g0 g' \<and>
        (\<forall>x. present g' x = (present g x \<and> x \<notin> set vs))"
proof (induction vs arbitrary: g)
  case Nil
  then show ?case by simp
next
  case (Cons v vs)
  have "present g v" using Cons.prems by simp
  from remove_vertex_step [OF Cons.prems(1,2) this] obtain g1 where
    e: "remove_vertex v g = Inr g1" and i: "graph_inv g1" and r: "restricts g0 g1"
    and p: "\<forall>x. present g1 x = (present g x \<and> x \<noteq> v)" by blast
  have d: "distinct vs" using Cons.prems by simp
  have a: "\<forall>x \<in> set vs. present g1 x" using Cons.prems p by auto
  from Cons.IH [OF i r d a] obtain g' where
    e': "remove_vertices vs g1 = Inr g'" and i': "graph_inv g'" and r': "restricts g0 g'"
    and p': "\<forall>x. present g' x = (present g1 x \<and> x \<notin> set vs)" by blast
  have "remove_vertices (v # vs) g = Inr g'" using e e' by simp
  moreover have "\<forall>x. present g' x = (present g x \<and> x \<notin> set (v # vs))" using p p' by auto
  ultimately show ?case using i' r' by blast
qed


lemma select_vertices_greedy:
  "graph_inv g \<Longrightarrow> restricts g0 g \<Longrightarrow> \<forall>i \<in> set is. i < length (weights g0) \<Longrightarrow>
   \<exists>g'. select_vertices is g mwis =
          Inr (mwis @ greedy_scan (adjacent g0) is {u. \<not> present g u}, g') \<and>
        graph_inv g' \<and> restricts g0 g' \<and>
        {u. \<not> present g' u} = scan_removed (adjacent g0) is {u. \<not> present g u}"
proof (induction "is" arbitrary: g mwis)
  case Nil
  then show ?case by simp
next
  case (Cons i "is")
  have inv: "graph_inv g" and r: "restricts g0 g" by fact+
  have len: "length (weights g) = length (weights g0)" using r by (simp add: restricts_def)
  have alen: "length (adjacent g) = length (weights g)" using inv by (simp add: graph_inv_def)
  have ir: "i < length (weights g)" using Cons.prems len by simp
  have rest: "\<forall>i \<in> set is. i < length (weights g0)" using Cons.prems by simp
  show ?case
  proof (cases "has_vertex g i")
    case False
    then have "i \<in> {u. \<not> present g u}" by (simp add: present_def)
    moreover have "select_vertices (i # is) g mwis = select_vertices is g mwis"
      using False ir by simp
    ultimately show ?thesis using Cons.IH [OF inv r rest, of mwis] by simp
  next
    case True
    then have p: "present g i" using ir by (simp add: present_def)
    let ?nb = "adjacent g ! i"
    have nbset: "set ?nb = {x \<in> set (adjacent g0 ! i). present g x}"
      using r p by (simp add: restricts_def)
    from remove_vertex_step [OF inv r p] obtain g1 where
      e1: "remove_vertex i g = Inr g1" and i1: "graph_inv g1" and r1: "restricts g0 g1"
      and p1: "\<forall>x. present g1 x = (present g x \<and> x \<noteq> i)" by blast
    have d: "distinct ?nb" using inv ir alen by (simp add: graph_inv_def)
    have "i \<notin> set ?nb"
      using inv ir alen unfolding graph_inv_def adjacency_irreflexive_def by simp
    then have a: "\<forall>v \<in> set ?nb. present g1 v"
      using p1 nbset by auto
    from remove_vertices_step [OF i1 r1 d a] obtain g2 where
      e2: "remove_vertices ?nb g1 = Inr g2" and i2: "graph_inv g2" and r2: "restricts g0 g2"
      and p2: "\<forall>x. present g2 x = (present g1 x \<and> x \<notin> set ?nb)" by blast
    have R2: "{u. \<not> present g2 u} = {u. \<not> present g u} \<union> {i} \<union> set (adjacent g0 ! i)"
      using p1 p2 nbset by auto
    have nin: "i \<notin> {u. \<not> present g u}" using p by simp
    have sel: "select_vertices (i # is) g mwis = select_vertices is g2 (mwis @ [i])"
      using True ir alen e1 e2 by simp
    from Cons.IH [OF i2 r2 rest, of "mwis @ [i]"] show ?thesis
      unfolding sel R2 using nin by simp
  qed
qed

lemma scan_removed_mono: "R \<subseteq> scan_removed adj is R"
proof (induction "is" arbitrary: R)
  case Nil
  then show ?case by simp
next
  case (Cons i "is")
  show ?case
  proof (cases "i \<in> R")
    case True
    then show ?thesis using Cons.IH [of R] by simp
  next
    case False
    have "R \<subseteq> R \<union> {i} \<union> set (adj ! i)" by blast
    also have "\<dots> \<subseteq> scan_removed adj is (R \<union> {i} \<union> set (adj ! i))" by (rule Cons.IH)
    finally show ?thesis using False by simp
  qed
qed

lemma scan_removed_covers: "set is \<subseteq> scan_removed adj is R"
proof (induction "is" arbitrary: R)
  case Nil
  then show ?case by simp
next
  case (Cons i "is")
  show ?case
  proof (cases "i \<in> R")
    case True
    then show ?thesis using Cons.IH [of R] scan_removed_mono [of R adj "is"] by auto
  next
    case False
    then show ?thesis
      using Cons.IH [of "R \<union> {i} \<union> set (adj ! i)"]
        scan_removed_mono [of "R \<union> {i} \<union> set (adj ! i)" adj "is"] by auto
  qed
qed

lemma scan_removed_eq:
  "scan_removed adj is R =
     R \<union> set (greedy_scan adj is R) \<union> (\<Union>s \<in> set (greedy_scan adj is R). set (adj ! s))"
  by (induction "is" arbitrary: R) auto

lemma greedy_scan_notin: "set (greedy_scan adj is R) \<inter> R = {}"
  by (induction "is" arbitrary: R) auto

lemma greedy_scan_subset: "set (greedy_scan adj is R) \<subseteq> set is"
  by (induction "is" arbitrary: R) auto

lemma greedy_scan_distinct: "distinct (greedy_scan adj is R)"
proof (induction "is" arbitrary: R)
  case Nil
  then show ?case by simp
next
  case (Cons i "is")
  then show ?case
    using greedy_scan_notin [of adj "is" "R \<union> {i} \<union> set (adj ! i)"] by auto
qed

text \<open>No selected vertex is adjacent to an earlier selected one.\<close>

lemma greedy_scan_independent:
  "j < k \<Longrightarrow> k < length (greedy_scan adj is R) \<Longrightarrow>
   greedy_scan adj is R ! k \<notin> set (adj ! (greedy_scan adj is R ! j))"
proof (induction "is" arbitrary: R j k)
  case Nil
  then show ?case by simp
next
  case (Cons i "is")
  show ?case
  proof (cases "i \<in> R")
    case True
    then show ?thesis using Cons by simp
  next
    case False
    let ?R = "R \<union> {i} \<union> set (adj ! i)"
    let ?t = "greedy_scan adj is ?R"
    obtain k' where k: "k = Suc k'" using Cons.prems by (cases k) auto
    have kl: "k' < length ?t" using Cons.prems False k by simp
    show ?thesis
    proof (cases j)
      case 0
      have "?t ! k' \<in> set ?t" using kl by simp
      then have "?t ! k' \<notin> ?R" using greedy_scan_notin [of adj "is" ?R] by blast
      then show ?thesis using 0 k False by simp
    next
      case (Suc j')
      then have "j' < k'" using Cons.prems k by simp
      from Cons.IH [OF this kl] show ?thesis using Suc k False by simp
    qed
  qed
qed


lemma set_stable_insert: "set (stable_insert lt x ys) = insert x (set ys)"
  by (induction ys) auto

lemma set_stable_sort: "set (stable_sort lt xs) = set xs"
  by (induction xs) (simp_all add: stable_sort_def set_stable_insert)



lemma gwmin_before_asym: "gwmin_before g a b \<Longrightarrow> \<not> gwmin_before g b a"
  by (auto simp: gwmin_before_def Let_def)

lemma gwmin_before_ntrans:
  "\<not> gwmin_before g c b \<Longrightarrow> \<not> gwmin_before g b a \<Longrightarrow> \<not> gwmin_before g c a"
  by (auto simp: gwmin_before_def Let_def)

lemma greedy_scan_first:
  assumes irr: "\<And>a. \<not> lt a a"
  shows "sorted_wrt (\<lambda>a b. \<not> lt b a) is \<Longrightarrow> k < length (greedy_scan adj is R) \<Longrightarrow>
     u \<in> set is \<Longrightarrow> u \<notin> R \<Longrightarrow>
     \<forall>j < k. u \<noteq> greedy_scan adj is R ! j \<and> u \<notin> set (adj ! (greedy_scan adj is R ! j)) \<Longrightarrow>
     \<not> lt u (greedy_scan adj is R ! k)"
proof (induction "is" arbitrary: R k)
  case Nil
  then show ?case by simp
next
  case (Cons i "is")
  have srt: "sorted_wrt (\<lambda>a b. \<not> lt b a) is" and first: "\<forall>z \<in> set is. \<not> lt z i"
    using Cons.prems(1) by auto
  show ?case
  proof (cases "i \<in> R")
    case True
    then have "u \<in> set is" using Cons.prems by auto
    from Cons.IH [OF srt _ this Cons.prems(4)] show ?thesis using True Cons.prems by simp
  next
    case False
    let ?R = "R \<union> {i} \<union> set (adj ! i)"
    let ?t = "greedy_scan adj is ?R"
    show ?thesis
    proof (cases k)
      case 0
      then show ?thesis using False Cons.prems(3) first irr by auto
    next
      case (Suc k')
      have kl: "k' < length ?t" using Cons.prems(2) False Suc by simp
      have z: "u \<noteq> i \<and> u \<notin> set (adj ! i)"
        using Cons.prems(5) False Suc by (auto dest: spec [of _ 0])
      then have us: "u \<in> set is" and uR: "u \<notin> ?R" using Cons.prems by auto
      have "\<forall>j < k'. u \<noteq> ?t ! j \<and> u \<notin> set (adj ! (?t ! j))"
      proof (intro allI impI)
        fix j assume "j < k'"
        then have "Suc j < k" using Suc by simp
        from Cons.prems(5) [rule_format, OF this] show "u \<noteq> ?t ! j \<and> u \<notin> set (adj ! (?t ! j))"
          using False by simp
      qed
      from Cons.IH [OF srt kl us uR this] show ?thesis using False Suc by simp
    qed
  qed
qed


lemma ranks_before_asym: "ranks_before g a b \<Longrightarrow> \<not> ranks_before g b a"
  using gwmin_before_asym [of g a b] gwmin_before_asym [of g b a]
  by (auto simp: ranks_before_def)

lemma ranks_before_total: "a \<noteq> b \<Longrightarrow> ranks_before g a b \<or> ranks_before g b a"
  by (auto simp: ranks_before_def)

text \<open>Stability: the insertion sort of ascending indices ranks ties by lower index.\<close>

lemma stable_insert_ranked:
  fixes x :: nat
  assumes asym: "\<And>a b. lt a b \<Longrightarrow> \<not> lt b a"
    and ntrans: "\<And>a b c. \<not> lt c b \<Longrightarrow> \<not> lt b a \<Longrightarrow> \<not> lt c a"
  shows "sorted_wrt (\<lambda>a b. lt a b \<or> (\<not> lt b a \<and> a < b)) ys \<Longrightarrow> \<forall>y \<in> set ys. x < y \<Longrightarrow>
     sorted_wrt (\<lambda>a b. lt a b \<or> (\<not> lt b a \<and> a < b)) (stable_insert lt x ys)"
proof (induction ys)
  case Nil
  then show ?case by simp
next
  case (Cons y ys)
  have tl: "sorted_wrt (\<lambda>a b. lt a b \<or> (\<not> lt b a \<and> a < b)) ys"
    and hd: "\<forall>z \<in> set ys. lt y z \<or> (\<not> lt z y \<and> y < z)"
    using Cons.prems(1) by simp_all
  show ?case
  proof (cases "lt y x")
    case True
    have "sorted_wrt (\<lambda>a b. lt a b \<or> (\<not> lt b a \<and> a < b)) (stable_insert lt x ys)"
      using Cons.IH [OF tl] Cons.prems(2) by simp
    moreover have "\<forall>z \<in> set (stable_insert lt x ys). lt y z \<or> (\<not> lt z y \<and> y < z)"
      using hd True by (simp add: set_stable_insert)
    ultimately show ?thesis using True by simp
  next
    case False
    have "\<not> lt z x" if "z \<in> set ys" for z
    proof -
      have "\<not> lt z y" using hd that asym by blast
      then show ?thesis using False ntrans by blast
    qed
    then have "\<forall>z \<in> set (y # ys). lt x z \<or> (\<not> lt z x \<and> x < z)"
      using False Cons.prems(2) by simp
    then show ?thesis using False Cons.prems(1) by simp
  qed
qed

lemma stable_sort_ranked:
  fixes xs :: "nat list"
  assumes asym: "\<And>a b. lt a b \<Longrightarrow> \<not> lt b a"
    and ntrans: "\<And>a b c. \<not> lt c b \<Longrightarrow> \<not> lt b a \<Longrightarrow> \<not> lt c a"
  shows "sorted_wrt (<) xs \<Longrightarrow>
     sorted_wrt (\<lambda>a b. lt a b \<or> (\<not> lt b a \<and> a < b)) (stable_sort lt xs)"
proof (induction xs)
  case Nil
  then show ?case by (simp add: stable_sort_def)
next
  case (Cons x xs)
  have e: "stable_sort lt (x # xs) = stable_insert lt x (stable_sort lt xs)"
    by (simp add: stable_sort_def)
  have tl: "sorted_wrt (<) xs" and hd: "\<forall>y \<in> set xs. x < y" using Cons.prems by simp_all
  have a: "sorted_wrt (\<lambda>a b. lt a b \<or> (\<not> lt b a \<and> a < b)) (stable_sort lt xs)"
    by (rule Cons.IH [OF tl])
  have b: "\<forall>y \<in> set (stable_sort lt xs). x < y"
    using hd by (simp only: set_stable_sort)
  show ?case
    unfolding e using stable_insert_ranked [where lt = lt and x = x, OF asym ntrans a b] .
qed

lemma count_present_zero:
  "(\<forall>u < length (weights g). \<not> present g u) \<Longrightarrow> count_present g = 0"
  unfolding count_present_def present_def has_vertex_def
  by (auto simp: filter_empty_conv in_set_conv_nth)

text \<open>
  C5, as amended: on a well-formed graph of fewer than \<open>2^32\<close> vertices the GWMIN
  selector returns. It ranks the indices below \<open>num_vertices\<close> (all vertices, when none was
  removed before) once, by \<open>weight / (degree + 1)\<close> in double precision with ties broken
  by higher degree and then by lower index, all taken in the graph as it was handed in.
  Every selected vertex is the one that ranks first among the vertices that can still be
  picked (below \<open>num_vertices\<close>, in the graph, neither selected before nor a neighbour of
  a vertex selected before), and after the last one no vertex can be picked. The graph
  returned is the graph handed in without the selected vertices and their neighbours:
  these are the vertices that are gone, the others keep their weights and the neighbours
  they still have. When all vertices were present at the start, none is left.
\<close>

theorem gwmin_static_order:
  assumes inv: "graph_inv g" and n: "length (weights g) < 2 ^ 32"
  shows "\<exists>mwis g'. maximum_weighted_independent_set_gwmin g = Inr (mwis, g') \<and>
     (\<forall>k < length mwis.
        eligible g (take k mwis) (mwis ! k) \<and>
        (\<forall>u. eligible g (take k mwis) u \<and> u \<noteq> mwis ! k \<longrightarrow> ranks_before g (mwis ! k) u)) \<and>
     (\<forall>u. \<not> eligible g mwis u) \<and>
     graph_inv g' \<and> restricts g g' \<and>
     (\<forall>u. present g' u =
        (present g u \<and> (\<forall>v \<in> set mwis. u \<noteq> v \<and> u \<notin> set (adjacent g ! v)))) \<and>
     (count_present g = length (weights g) \<longrightarrow> count_present g' = 0)"
proof -
  let ?N = "unat (num_vertices g)"
  let ?lt = "gwmin_before g"
  let ?srt = "stable_sort ?lt [0..<?N]"
  let ?R = "{u. \<not> present g u}"
  let ?sel = "greedy_scan (adjacent g) ?srt ?R"
  have N: "?N = count_present g" using graph_inv_counts(1) [OF inv n] .
  have Nle: "?N \<le> length (weights g)" unfolding N by (simp add: count_present_def)
  have alen: "length (adjacent g) = length (weights g)" using inv by (simp add: graph_inv_def)
  have set_srt: "set ?srt = {0..<?N}" by (simp add: set_stable_sort)
  have rng: "\<forall>i \<in> set ?srt. i < length (weights g)" using set_srt Nle by auto
  from select_vertices_greedy [OF inv restricts_refl [OF inv] rng, of "[]"] obtain g' where
    e: "select_vertices ?srt g [] = Inr (?sel, g')" and i': "graph_inv g'"
    and r': "restricts g g'"
    and fin: "{u. \<not> present g' u} = scan_removed (adjacent g) ?srt ?R"
    by auto
  have run: "maximum_weighted_independent_set_gwmin g = Inr (?sel, g')"
    using e Nle alen by (simp add: maximum_weighted_independent_set_gwmin_def Let_def)
  have "sorted_wrt (\<lambda>a b. ?lt a b \<or> (\<not> ?lt b a \<and> a < b)) ?srt"
    by (rule stable_sort_ranked) (fact gwmin_before_asym gwmin_before_ntrans sorted_wrt_upt)+
  then have rk: "sorted_wrt (ranks_before g) ?srt" by (simp add: ranks_before_def [abs_def])
  have srt: "sorted_wrt (\<lambda>a b. \<not> ranks_before g b a) ?srt"
    using rk by (rule sorted_wrt_mono_rel [rotated]) (simp add: ranks_before_asym)
  have irr: "\<And>a. \<not> ranks_before g a a" using ranks_before_asym by blast
  have gone: "{u. \<not> present g' u} =
      ?R \<union> set ?sel \<union> (\<Union>s \<in> set ?sel. set (adjacent g ! s))"
    unfolding fin by (rule scan_removed_eq)
  have pres: "\<forall>u. present g' u =
      (present g u \<and> (\<forall>v \<in> set ?sel. u \<noteq> v \<and> u \<notin> set (adjacent g ! v)))"
    using gone by blast
  have sel_in: "?sel ! k \<in> set ?srt \<and> ?sel ! k \<notin> ?R" if "k < length ?sel" for k
    using that greedy_scan_subset [of "adjacent g" ?srt ?R]
      greedy_scan_notin [of "adjacent g" ?srt ?R] nth_mem [OF that] by blast
  have dist: "distinct ?sel" by (rule greedy_scan_distinct)
  have earlier: "(\<forall>v \<in> set (take k ?sel). P v) = (\<forall>j < k. P (?sel ! j))"
    if "k < length ?sel" for k and P :: "nat \<Rightarrow> bool"
  proof -
    have "set (take k ?sel) = (!) ?sel ` {0..<k}" using that nth_image [of k ?sel] by simp
    then show ?thesis by auto
  qed
  have each: "\<forall>k < length ?sel.
        eligible g (take k ?sel) (?sel ! k) \<and>
        (\<forall>u. eligible g (take k ?sel) u \<and> u \<noteq> ?sel ! k \<longrightarrow> ranks_before g (?sel ! k) u)"
  proof (intro allI impI conjI)
    fix k assume k: "k < length ?sel"
    have "\<forall>j < k. ?sel ! k \<noteq> ?sel ! j \<and> ?sel ! k \<notin> set (adjacent g ! (?sel ! j))"
    proof (intro allI impI conjI)
      fix j assume j: "j < k"
      show "?sel ! k \<noteq> ?sel ! j" using dist j k by (simp add: nth_eq_iff_index_eq)
      show "?sel ! k \<notin> set (adjacent g ! (?sel ! j))"
        using greedy_scan_independent [OF j k] .
    qed
    then show "eligible g (take k ?sel) (?sel ! k)"
      using sel_in [OF k] set_srt earlier [OF k] by (simp add: eligible_def)
    fix u assume h: "eligible g (take k ?sel) u \<and> u \<noteq> ?sel ! k"
    then have u: "u < ?N" and pu: "present g u"
      and f: "\<forall>j < k. u \<noteq> ?sel ! j \<and> u \<notin> set (adjacent g ! (?sel ! j))"
      using earlier [OF k] by (simp_all add: eligible_def)
    have "u \<in> set ?srt" using u set_srt by simp
    moreover have "u \<notin> ?R" using pu by simp
    ultimately have "\<not> ranks_before g u (?sel ! k)"
      using greedy_scan_first [of "ranks_before g" ?srt k "adjacent g" ?R u, OF irr srt k] f
      by blast
    then show "ranks_before g (?sel ! k) u" using h ranks_before_total [of u "?sel ! k" g] by blast
  qed
  have none: "\<forall>u. \<not> eligible g ?sel u"
  proof (intro allI notI)
    fix u assume h: "eligible g ?sel u"
    then have "u \<in> set ?srt" using set_srt by (simp add: eligible_def)
    then have "u \<in> scan_removed (adjacent g) ?srt ?R"
      using scan_removed_covers [of ?srt "adjacent g" ?R] by blast
    then have "\<not> present g' u" using fin by blast
    then show False using h pres by (auto simp: eligible_def)
  qed
  have empty: "count_present g = length (weights g) \<longrightarrow> count_present g' = 0"
  proof
    assume a: "count_present g = length (weights g)"
    have "\<not> present g' u" if "u < length (weights g')" for u
    proof
      assume p: "present g' u"
      then have "present g u" using pres by blast
      moreover have "u < ?N" using that N a r' by (simp add: restricts_def)
      ultimately have "eligible g ?sel u" using p pres by (simp add: eligible_def)
      then show False using none by blast
    qed
    then show "count_present g' = 0" using count_present_zero [of g'] by blast
  qed
  show ?thesis using run each none i' r' pres empty by blast
qed

lemma bit_length_eval:
  "bit_length 0 = 0" "bit_length 1 = 1" "bit_length (Suc 0) = 1"
  "bit_length (numeral k) = Suc (bit_length (numeral k div 2))"
  by (subst bit_length.simps, simp)+

lemmas select_eval = maximum_weighted_independent_set_gwmin_def maximal_weighted_independent_set_def
  stable_sort_def gwmin_before_def gwmin_value_def weight_def degree_def
  double_div_def binade_def round_half_even_def bit_length_eval Let_def
  numeral_2_eq_2 [symmetric] numeral_3_eq_3 [symmetric]

text \<open>
  Rounding makes ties that the exact quotients do not have: these two quotients differ
  and are the same double.
\<close>

lemma double_div_tie:
  "double_div 2144029273 4195752 = double_div 2144029784 4195753 \<and>
   (2144029273 / 4195752 :: real) \<noteq> 2144029784 / 4195753"
  by (simp add: double_div_def binade_def round_half_even_def bit_length_eval Let_def)

text \<open>
  The claim as stated fails. The ranking is not recomputed after removals: with weights
  10, 3, 6, 4 and edges 0-1 and 1-2 the order is 0, 3, 2, 1; after vertex 0 and its
  neighbour 1 are removed, vertex 3 (value 4) is selected although vertex 2 now has
  degree 0 and value 6. And only the indices below \<open>num_vertices\<close> are ranked: after
  vertex 0 of three vertices was removed, vertex 2 is never looked at and stays in the
  graph.
\<close>

theorem gwmin_claim_counterexample:
  "graph_run [Add_vertex 10, Add_vertex 3, Add_vertex 6, Add_vertex 4, Add_edge 0 1, Add_edge 1 2]
     empty_graph =
     Inr \<lparr>num_vertices = 4, num_edges = 2, adjacent = [[1], [0, 2], [1], []],
          weights = [10, 3, 6, 4]\<rparr> \<and>
   maximum_weighted_independent_set_gwmin
     \<lparr>num_vertices = 4, num_edges = 2, adjacent = [[1], [0, 2], [1], []],
      weights = [10, 3, 6, 4]\<rparr> =
     Inr ([0, 3, 2], \<lparr>num_vertices = 0, num_edges = 0, adjacent = [[], [], [], []],
          weights = [- 1, - 1, - 1, - 1]\<rparr>) \<and>
   graph_run [Remove_vertex 0, Remove_vertex 1]
     \<lparr>num_vertices = 4, num_edges = 2, adjacent = [[1], [0, 2], [1], []],
      weights = [10, 3, 6, 4]\<rparr> =
     Inr \<lparr>num_vertices = 2, num_edges = 0, adjacent = [[], [], [], []],
          weights = [- 1, - 1, 6, 4]\<rparr> \<and>
   present \<lparr>num_vertices = 2, num_edges = 0, adjacent = [[], [], [], []],
          weights = [- 1, - 1, 6, 4]\<rparr> 2 \<and>
   gwmin_value \<lparr>num_vertices = 2, num_edges = 0, adjacent = [[], [], [], []],
          weights = [- 1, - 1, 6, 4]\<rparr> 3
     < gwmin_value \<lparr>num_vertices = 2, num_edges = 0, adjacent = [[], [], [], []],
          weights = [- 1, - 1, 6, 4]\<rparr> 2 \<and>
   graph_run [Add_vertex 5, Add_vertex 3, Add_vertex 7, Remove_vertex 0] empty_graph =
     Inr \<lparr>num_vertices = 2, num_edges = 0, adjacent = [[], [], []], weights = [- 1, 3, 7]\<rparr> \<and>
   maximum_weighted_independent_set_gwmin
     \<lparr>num_vertices = 2, num_edges = 0, adjacent = [[], [], []], weights = [- 1, 3, 7]\<rparr> =
     Inr ([1], \<lparr>num_vertices = 1, num_edges = 0, adjacent = [[], [], []],
          weights = [- 1, - 1, 7]\<rparr>)"
  by (simp add: graph_eval select_eval upt_rec)

theorem gwmin_static_order_witness:
  "maximum_weighted_independent_set_gwmin
     \<lparr>num_vertices = 4, num_edges = 2, adjacent = [[1], [0, 2], [1], []],
      weights = [10, 3, 6, 4]\<rparr> =
     Inr ([0, 3, 2], \<lparr>num_vertices = 0, num_edges = 0, adjacent = [[], [], [], []],
          weights = [- 1, - 1, - 1, - 1]\<rparr>) \<and>
   eligible \<lparr>num_vertices = 4, num_edges = 2, adjacent = [[1], [0, 2], [1], []],
      weights = [10, 3, 6, 4]\<rparr> [0] 2 \<and>
   ranks_before \<lparr>num_vertices = 4, num_edges = 2, adjacent = [[1], [0, 2], [1], []],
      weights = [10, 3, 6, 4]\<rparr> 3 2 \<and>
   count_present \<lparr>num_vertices = 0, num_edges = 0, adjacent = [[], [], [], []],
          weights = [- 1, - 1, - 1, - 1]\<rparr> = 0"
proof -
  let ?ops = "[Add_vertex 10, Add_vertex 3, Add_vertex 6, Add_vertex 4, Add_edge 0 1, Add_edge 1 2]"
  let ?G = "\<lparr>num_vertices = 4, num_edges = 2, adjacent = [[1], [0, 2], [1], []],
      weights = [10, 3, 6, 4]\<rparr>"
  have c: "calls_present ?ops empty_graph" by (simp add: graph_eval)
  have r: "graph_run ?ops empty_graph = Inr ?G" by (simp add: graph_eval)
  have inv: "graph_inv ?G" using graph_run_inv [OF graph_inv_empty c] unfolding r by simp
  have n: "length (weights ?G) < 2 ^ 32" by simp
  have e: "maximum_weighted_independent_set_gwmin ?G =
     Inr ([0, 3, 2], \<lparr>num_vertices = 0, num_edges = 0, adjacent = [[], [], [], []],
          weights = [- 1, - 1, - 1, - 1]\<rparr>)"
    by (simp add: graph_eval select_eval upt_rec)
  from gwmin_static_order [OF inv n] obtain mwis g' where
    m: "maximum_weighted_independent_set_gwmin ?G = Inr (mwis, g')"
    and k: "\<forall>k < length mwis.
        eligible ?G (take k mwis) (mwis ! k) \<and>
        (\<forall>u. eligible ?G (take k mwis) u \<and> u \<noteq> mwis ! k \<longrightarrow> ranks_before ?G (mwis ! k) u)"
    and z: "count_present ?G = length (weights ?G) \<longrightarrow> count_present g' = 0"
    by blast
  have mw: "mwis = [0, 3, 2]" and g': "g' = \<lparr>num_vertices = 0, num_edges = 0, adjacent = [[], [], [], []],
          weights = [- 1, - 1, - 1, - 1]\<rparr>"
    using m e by simp_all
  have el: "eligible ?G [0] 2" by (simp add: eligible_def present_def has_vertex_def)
  have "\<forall>u. eligible ?G (take 1 mwis) u \<and> u \<noteq> mwis ! 1 \<longrightarrow> ranks_before ?G (mwis ! 1) u"
    using k [THEN spec, of 1] unfolding mw by simp
  from this [THEN spec, of 2] have "ranks_before ?G 3 2"
    using el unfolding mw by simp
  moreover have "count_present g' = 0" using z by (simp add: count_present_def)
  ultimately show ?thesis using e g' el by simp
qed

section \<open>Conflict graph of the candidates\<close>

lemma record_conflicts_spec:
  "\<forall>x \<in> set gs. x < length cf \<Longrightarrow>
   \<exists>cf'. record_conflicts n c gs cf = Inr cf' \<and> length cf' = length cf \<and>
     (\<forall>x < length cf. set (cf' ! x) = set (cf ! x) \<union> (if x \<in> set gs then {(n, c)} else {}))"
proof (induction gs arbitrary: cf)
  case Nil
  then show ?case by simp
next
  case (Cons y gs)
  let ?cf = "cf[y := cf ! y @ [(n, c)]]"
  have y: "y < length cf" using Cons.prems by simp
  have "\<forall>x \<in> set gs. x < length ?cf" using Cons.prems by simp
  from Cons.IH [OF this] obtain cf' where
    r: "record_conflicts n c gs ?cf = Inr cf'" and l: "length cf' = length ?cf"
    and s: "\<forall>x < length ?cf. set (cf' ! x) = set (?cf ! x) \<union> (if x \<in> set gs then {(n, c)} else {})"
    by blast
  have r': "record_conflicts n c (y # gs) cf = Inr cf'" using r y by simp
  have "\<forall>x < length cf. set (cf' ! x) = set (cf ! x) \<union> (if x \<in> set (y # gs) then {(n, c)} else {})"
  proof (intro allI impI)
    fix x assume x: "x < length cf"
    then have "set (cf' ! x) = set (?cf ! x) \<union> (if x \<in> set gs then {(n, c)} else {})"
      using s by simp
    then show "set (cf' ! x) = set (cf ! x) \<union> (if x \<in> set (y # gs) then {(n, c)} else {})"
      using x by (cases "x = y") (auto simp: nth_list_update)
  qed
  then show ?case using r' l by simp
qed


lemma add_cut_step:
  fixes ctx azg n D st ct cs pre cf
  defines "N \<equiv> ctx_nodes_size ctx"
    and "V \<equiv> length (cg_vertex_to_cut_addr st)"
    and "cctr \<equiv> length (filter (cut_accepted azg) pre)"
  defines "st1 \<equiv> st\<lparr>cg_graph := snd (add_vertex (cut_gain ct) (cg_graph st)), cg_conflicts := cf,
                     cg_vertex_to_cut_addr := cg_vertex_to_cut_addr st @ [(n, cctr)],
                     cg_cut_addr_to_vertex :=
                       (cg_cut_addr_to_vertex st)
                         [n := cg_cut_addr_to_vertex st ! n @ [V mod 2 ^ 32]]\<rparr>"
  assumes g: "cg_graph_ok st" and v: "cg_vertices_ok ctx azg (insert n D) st"
    and c: "cg_conflicts_ok ctx st" and u: "cg_unvisited_ok ctx (insert n D) st"
    and n: "n < N" and cuts: "ctx_cuts ctx n = pre @ ct # cs" and acc: "cut_accepted azg ct"
    and len: "length (cg_cut_addr_to_vertex st ! n) = cctr"
    and rng: "\<forall>x \<in> set (ctx_view_gates ctx n ct). x < N"
    and lcf: "length cf = length (cg_conflicts st)"
    and scf: "\<forall>x < length (cg_conflicts st). set (cf ! x) =
        set (cg_conflicts st ! x) \<union> (if x \<in> set (ctx_view_gates ctx n ct) then {(n, cctr)} else {})"
  shows "cg_graph_ok st1" and "cg_vertices_ok ctx azg (insert n D) st1"
    and "cg_conflicts_ok ctx st1" and "cg_unvisited_ok ctx (insert n D) st1"
    and "length (cg_cut_addr_to_vertex st1 ! n) = Suc cctr"
proof -
  let ?c2v = "cg_cut_addr_to_vertex st"
  let ?v2c = "cg_vertex_to_cut_addr st"
  have lc: "length (cg_conflicts st) = N" and l2: "length ?c2v = N"
    using c by (simp_all add: cg_conflicts_ok_def N_def)
  have gain: "0 \<le> sint (cut_gain ct)"
    using acc by (cases azg) (simp_all add: cut_accepted_def)
  have wl: "length (weights (cg_graph st)) = V" using g by (simp add: cg_graph_ok_def V_def)
  have c2v1: "cg_cut_addr_to_vertex st1 ! m = (if m = n then ?c2v ! n @ [V mod 2 ^ 32] else ?c2v ! m)"
    if "m < N" for m
    using that l2 by (simp add: st1_def nth_list_update)
  have v2c1: "cg_vertex_to_cut_addr st1 ! w = (if w < V then ?v2c ! w else (n, cctr))"
    if "w < Suc V" for w
    using that by (auto simp: st1_def V_def nth_append)
  have V1: "length (cg_vertex_to_cut_addr st1) = Suc V" by (simp add: st1_def V_def)
  have cf1: "cg_conflicts st1 = cf" by (simp add: st1_def)
  have accn: "accepted_cuts ctx azg n = filter (cut_accepted azg) pre @ ct # filter (cut_accepted azg) cs"
    using cuts acc by (simp add: accepted_cuts_def)
  have tch: "touched ctx azg (n, cctr) = ctx_view_gates ctx n ct"
    by (simp add: touched_def accn cctr_def)
  show "cg_graph_ok st1"
  proof -
    have gi: "graph_inv (snd (add_vertex (cut_gain ct) (cg_graph st)))"
      using g gain by (simp add: cg_graph_ok_def graph_inv_add_vertex)
    have w1: "weights (cg_graph st1) = weights (cg_graph st) @ [cut_gain ct]"
      by (simp add: st1_def add_vertex_def)
    have "present (cg_graph st1) w" if "w < Suc V" for w
    proof (cases "w < V")
      case True
      then have "present (cg_graph st) w" using g by (simp add: cg_graph_ok_def V_def)
      then show ?thesis using True wl by (simp add: present_def has_vertex_def w1 nth_append)
    next
      case False
      then have "w = V" using that by simp
      then show ?thesis using wl gain by (simp add: present_def has_vertex_def w1 nth_append)
    qed
    then show ?thesis
      unfolding cg_graph_ok_def V1 using gi w1 wl by (simp add: st1_def)
  qed
  show "length (cg_cut_addr_to_vertex st1 ! n) = Suc cctr"
    using c2v1 [OF n] len by simp
  show "cg_unvisited_ok ctx (insert n D) st1"
    unfolding cg_unvisited_ok_def
  proof (intro allI impI)
    fix m assume m: "m < ctx_nodes_size ctx" and nin: "m \<notin> insert n D"
    then have "?c2v ! m = []" using u by (simp add: cg_unvisited_ok_def)
    then show "cg_cut_addr_to_vertex st1 ! m = []" using c2v1 [of m] m nin by (simp add: N_def)
  qed
  show "cg_conflicts_ok ctx st1"
    unfolding cg_conflicts_ok_def
  proof (intro conjI allI impI ballI)
    show "length (cg_conflicts st1) = ctx_nodes_size ctx" using lcf lc by (simp add: cf1 N_def)
    show "length (cg_cut_addr_to_vertex st1) = ctx_nodes_size ctx"
      using l2 by (simp add: st1_def N_def)
  next
    fix x a assume x: "x < ctx_nodes_size ctx" and a: "a \<in> set (cg_conflicts st1 ! x)"
    have "a \<in> set (cg_conflicts st ! x) \<or> a = (n, cctr)"
      using a scf x lc by (auto simp: cf1 N_def split: if_splits)
    then have r: "fst a < N \<and> snd a < length (cg_cut_addr_to_vertex st1 ! fst a) \<and>
        cg_cut_addr_to_vertex st1 ! fst a ! snd a < Suc V"
    proof
      assume old: "a \<in> set (cg_conflicts st ! x)"
      then have o: "fst a < N" "snd a < length (?c2v ! fst a)" "?c2v ! fst a ! snd a < V"
        using c x unfolding cg_conflicts_ok_def N_def V_def by blast+
      show ?thesis
      proof (cases "fst a = n")
        case True
        then show ?thesis using o c2v1 [OF n] by (simp add: nth_append)
      next
        case False
        then show ?thesis using o c2v1 [OF o(1)] by simp
      qed
    next
      assume new: "a = (n, cctr)"
      have "V mod 2 ^ 32 \<le> V" by simp
      then show ?thesis using new n c2v1 [OF n] len by (simp add: nth_append)
    qed
    show "fst a < ctx_nodes_size ctx" using r by (simp add: N_def)
    show "snd a < length (cg_cut_addr_to_vertex st1 ! fst a)" using r by simp
    show "cg_cut_addr_to_vertex st1 ! fst a ! snd a < length (cg_vertex_to_cut_addr st1)"
      using r V1 by simp
  qed
  show "cg_vertices_ok ctx azg (insert n D) st1"
    unfolding cg_vertices_ok_def V1
  proof (intro allI impI)
    fix w assume w: "w < Suc V"
    let ?a = "cg_vertex_to_cut_addr st1 ! w"
    have mono: "b \<in> set (cg_conflicts st1 ! x)" if "x < N" "b \<in> set (cg_conflicts st ! x)" for b x
      using that scf lc by (simp add: cf1)
    have "fst ?a \<in> insert n D \<and> fst ?a < N \<and>
        snd ?a < length (cg_cut_addr_to_vertex st1 ! fst ?a) \<and>
        cg_cut_addr_to_vertex st1 ! fst ?a ! snd ?a = w mod 2 ^ 32 \<and>
        snd ?a < length (accepted_cuts ctx azg (fst ?a)) \<and>
        (\<forall>x \<in> set (touched ctx azg ?a). x < N \<and> ?a \<in> set (cg_conflicts st1 ! x))"
    proof (cases "w < V")
      case True
      then have a: "?a = ?v2c ! w" using v2c1 [OF w] by simp
      have o: "fst (?v2c ! w) \<in> insert n D" "fst (?v2c ! w) < N"
        "snd (?v2c ! w) < length (?c2v ! fst (?v2c ! w))"
        "?c2v ! fst (?v2c ! w) ! snd (?v2c ! w) = w mod 2 ^ 32"
        "snd (?v2c ! w) < length (accepted_cuts ctx azg (fst (?v2c ! w)))"
        "\<forall>x \<in> set (touched ctx azg (?v2c ! w)). x < N \<and> ?v2c ! w \<in> set (cg_conflicts st ! x)"
        using v True unfolding cg_vertices_ok_def V_def N_def by blast+
      have "snd (?v2c ! w) < length (cg_cut_addr_to_vertex st1 ! fst (?v2c ! w)) \<and>
        cg_cut_addr_to_vertex st1 ! fst (?v2c ! w) ! snd (?v2c ! w) = w mod 2 ^ 32"
        using o(3,4) c2v1 [OF o(2)] by (cases "fst (?v2c ! w) = n") (simp_all add: nth_append)
      then show ?thesis unfolding a using o mono by blast
    next
      case False
      then have a: "?a = (n, cctr)" and wV: "w = V" using v2c1 [OF w] w by simp_all
      have "\<forall>x \<in> set (touched ctx azg (n, cctr)). x < N \<and> (n, cctr) \<in> set (cg_conflicts st1 ! x)"
        unfolding tch using rng scf lc by (simp add: cf1)
      then show ?thesis
        unfolding a using n c2v1 [OF n] len wV by (simp add: nth_append accn cctr_def)
    qed
    then show "fst ?a \<in> insert n D \<and> fst ?a < ctx_nodes_size ctx \<and>
        snd ?a < length (cg_cut_addr_to_vertex st1 ! fst ?a) \<and>
        cg_cut_addr_to_vertex st1 ! fst ?a ! snd ?a = w mod 2 ^ 32 \<and>
        snd ?a < length (accepted_cuts ctx azg (fst ?a)) \<and>
        (\<forall>x \<in> set (touched ctx azg ?a). x < ctx_nodes_size ctx \<and> ?a \<in> set (cg_conflicts st1 ! x))"
      by (simp add: N_def)
  qed
qed


lemma add_cuts_inv:
  "cg_graph_ok st \<Longrightarrow> cg_vertices_ok ctx azg (insert n D) st \<Longrightarrow> cg_conflicts_ok ctx st \<Longrightarrow>
   cg_unvisited_ok ctx (insert n D) st \<Longrightarrow> n < ctx_nodes_size ctx \<Longrightarrow>
   ctx_cuts ctx n = pre @ cs \<Longrightarrow>
   length (cg_cut_addr_to_vertex st ! n) = length (filter (cut_accepted azg) pre) \<Longrightarrow>
   gates_in_range ctx \<Longrightarrow>
   \<exists>st'. add_cuts ctx azg n cs (length (filter (cut_accepted azg) pre)) st = Inr st' \<and>
     cg_graph_ok st' \<and> cg_vertices_ok ctx azg (insert n D) st' \<and> cg_conflicts_ok ctx st' \<and>
     cg_unvisited_ok ctx (insert n D) st'"
proof (induction cs arbitrary: pre st)
  case Nil
  then show ?case by simp
next
  case (Cons ct cs)
  let ?cctr = "length (filter (cut_accepted azg) pre)"
  have cuts': "ctx_cuts ctx n = (pre @ [ct]) @ cs" using Cons.prems(6) by simp
  show ?case
  proof (cases "cut_accepted azg ct")
    case False
    then have f: "filter (cut_accepted azg) (pre @ [ct]) = filter (cut_accepted azg) pre" by simp
    have skip: "add_cuts ctx azg n (ct # cs) ?cctr st = add_cuts ctx azg n cs ?cctr st"
      using False by (auto simp: cut_accepted_def)
    from Cons.IH [of st "pre @ [ct]", OF Cons.prems(1-5) cuts' _ Cons.prems(8)]
    show ?thesis unfolding f skip using Cons.prems(7) by simp
  next
    case True
    let ?gs = "ctx_view_gates ctx n ct"
    let ?V = "length (cg_vertex_to_cut_addr st)"
    have lc: "length (cg_conflicts st) = ctx_nodes_size ctx"
      and l2: "length (cg_cut_addr_to_vertex st) = ctx_nodes_size ctx"
      using Cons.prems(3) by (simp_all add: cg_conflicts_ok_def)
    have "ct \<in> set (ctx_cuts ctx n)" using Cons.prems(6) by simp
    then have rng: "\<forall>x \<in> set ?gs. x < ctx_nodes_size ctx"
      using Cons.prems(8) unfolding gates_in_range_def by blast
    then have "\<forall>x \<in> set ?gs. x < length (cg_conflicts st)" using lc by simp
    from record_conflicts_spec [OF this, of n ?cctr] obtain cf where
      rc: "record_conflicts n ?cctr ?gs (cg_conflicts st) = Inr cf"
      and lcf: "length cf = length (cg_conflicts st)"
      and scf: "\<forall>x < length (cg_conflicts st). set (cf ! x) =
        set (cg_conflicts st ! x) \<union> (if x \<in> set ?gs then {(n, ?cctr)} else {})"
      by blast
    let ?st1 = "st\<lparr>cg_graph := snd (add_vertex (cut_gain ct) (cg_graph st)), cg_conflicts := cf,
                     cg_vertex_to_cut_addr := cg_vertex_to_cut_addr st @ [(n, ?cctr)],
                     cg_cut_addr_to_vertex :=
                       (cg_cut_addr_to_vertex st)
                         [n := cg_cut_addr_to_vertex st ! n @ [?V mod 2 ^ 32]]\<rparr>"
    have wl: "length (weights (cg_graph st)) = ?V" using Cons.prems(1) by (simp add: cg_graph_ok_def)
    have step: "add_cuts ctx azg n (ct # cs) ?cctr st = add_cuts ctx azg n cs (Suc ?cctr) ?st1"
      using True rc wl Cons.prems(5) l2 by (auto simp: cut_accepted_def add_vertex_def)
    note s = add_cut_step [OF Cons.prems(1-5) Cons.prems(6) True Cons.prems(7) rng lcf scf]
    have f: "filter (cut_accepted azg) (pre @ [ct]) = filter (cut_accepted azg) pre @ [ct]"
      using True by simp
    have l': "length (cg_cut_addr_to_vertex ?st1 ! n) = length (filter (cut_accepted azg) (pre @ [ct]))"
      using s(5) True by simp
    from Cons.IH [of ?st1 "pre @ [ct]", OF s(1-4) Cons.prems(5) cuts' l' Cons.prems(8)]
    show ?thesis unfolding step using True by simp
  qed
qed

lemma cg_vertices_ok_mono: "cg_vertices_ok ctx azg D st \<Longrightarrow> D \<subseteq> E \<Longrightarrow> cg_vertices_ok ctx azg E st"
  unfolding cg_vertices_ok_def by blast

lemma cg_unvisited_ok_mono: "cg_unvisited_ok ctx D st \<Longrightarrow> D \<subseteq> E \<Longrightarrow> cg_unvisited_ok ctx E st"
  unfolding cg_unvisited_ok_def by blast

lemma visit_node_inv:
  assumes g: "cg_graph_ok st" and v: "cg_vertices_ok ctx azg D st" and c: "cg_conflicts_ok ctx st"
    and u: "cg_unvisited_ok ctx D st" and nD: "n \<notin> D" and gr: "gates_in_range ctx"
  shows "\<exists>st'. visit_node ctx azg n st = Inr st' \<and> cg_graph_ok st' \<and>
     cg_vertices_ok ctx azg (insert n D) st' \<and> cg_conflicts_ok ctx st' \<and>
     cg_unvisited_ok ctx (insert n D) st'"
proof -
  have v': "cg_vertices_ok ctx azg (insert n D) st" using cg_vertices_ok_mono [OF v] by blast
  have u': "cg_unvisited_ok ctx (insert n D) st" using cg_unvisited_ok_mono [OF u] by blast
  show ?thesis
  proof (cases "n \<ge> ctx_nodes_size ctx \<or> ctx_is_terminal ctx n \<or> ctx_mffc_size ctx n = 1")
    case True
    then have "visit_node ctx azg n st = Inr st" by (auto simp: visit_node_def)
    then show ?thesis using g v' c u' by simp
  next
    case False
    then have n: "n < ctx_nodes_size ctx" by simp
    have e: "visit_node ctx azg n st = add_cuts ctx azg n (ctx_cuts ctx n) 0 st"
      using False by (simp add: visit_node_def)
    have l: "length (cg_cut_addr_to_vertex st ! n) = length (filter (cut_accepted azg) [])"
      using u n nD by (simp add: cg_unvisited_ok_def)
    from add_cuts_inv [of st ctx azg n D "[]" "ctx_cuts ctx n", OF g v' c u' n _ l gr]
    show ?thesis unfolding e by simp
  qed
qed

lemma visit_nodes_inv:
  "cg_graph_ok st \<Longrightarrow> cg_vertices_ok ctx azg D st \<Longrightarrow> cg_conflicts_ok ctx st \<Longrightarrow>
   cg_unvisited_ok ctx D st \<Longrightarrow> distinct ns \<Longrightarrow> set ns \<inter> D = {} \<Longrightarrow> gates_in_range ctx \<Longrightarrow>
   \<exists>st'. visit_nodes ctx azg ns st = Inr st' \<and> cg_graph_ok st' \<and>
     cg_vertices_ok ctx azg (D \<union> set ns) st' \<and> cg_conflicts_ok ctx st'"
proof (induction ns arbitrary: st D)
  case Nil
  then show ?case by simp
next
  case (Cons n ns)
  have nD: "n \<notin> D" using Cons.prems(6) by simp
  from visit_node_inv [OF Cons.prems(1-4) nD Cons.prems(7)] obtain st1 where
    e: "visit_node ctx azg n st = Inr st1" and g: "cg_graph_ok st1"
    and v: "cg_vertices_ok ctx azg (insert n D) st1" and c: "cg_conflicts_ok ctx st1"
    and u: "cg_unvisited_ok ctx (insert n D) st1" by blast
  have d: "distinct ns" and i: "set ns \<inter> insert n D = {}" using Cons.prems(5,6) by auto
  from Cons.IH [OF g v c u d i Cons.prems(7)] obtain st' where
    e': "visit_nodes ctx azg ns st1 = Inr st'" and r: "cg_graph_ok st'"
      "cg_vertices_ok ctx azg (insert n D \<union> set ns) st'" "cg_conflicts_ok ctx st'" by blast
  have "insert n D \<union> set ns = D \<union> set (n # ns)" by auto
  then show ?case using e e' r by simp
qed


lemma edges_kept_refl: "edges_kept g g"
  by (simp add: edges_kept_def)

lemma edges_kept_trans:
  "graph_inv g \<Longrightarrow> graph_inv g' \<Longrightarrow> edges_kept g g' \<Longrightarrow> edges_kept g' g'' \<Longrightarrow> edges_kept g g''"
  unfolding edges_kept_def graph_inv_def by (metis subset_trans length_map)


lemma add_edge_links:
  assumes inv: "graph_inv g" and p1: "present g v1" and p2: "present g v2" and ne: "v1 \<noteq> v2"
  shows "\<exists>g'. add_edge v1 v2 g = Inr g' \<and> graph_inv g' \<and> edges_kept g g' \<and>
           v2 \<in> set (adjacent g' ! v1)"
proof -
  from graph_inv_add_edge [OF inv p1 p2] obtain g' where
    e: "add_edge v1 v2 g = Inr g'" and i: "graph_inv g'" and w: "weights g' = weights g" by blast
  have r1: "v1 < length (adjacent g)" and r2: "v2 < length (adjacent g)"
    using present_in_range [OF inv] p1 p2 by auto
  show ?thesis
  proof (cases "v2 \<in> set (adjacent g ! v1)")
    case True
    then have "g' = g" using e ne r1 by (simp add: add_edge_def)
    then show ?thesis using e i True edges_kept_refl by simp
  next
    case False
    let ?a1 = "(adjacent g)[v1 := set_insert v2 (adjacent g ! v1)]"
    have a: "adjacent g' = ?a1[v2 := set_insert v1 (adjacent g ! v2)]"
      using e ne False r1 r2 by (auto simp: add_edge_def Let_def)
    have sub: "set (adjacent g ! x) \<subseteq> set (adjacent g' ! x)" if "x < length (adjacent g)" for x
      unfolding a using that
      by (cases "x = v1"; cases "x = v2") (auto simp: nth_list_update set_set_insert)
    have "v2 \<in> set (adjacent g' ! v1)"
      unfolding a using r1 ne by (simp add: nth_list_update set_set_insert)
    then show ?thesis using e i w sub by (auto simp: edges_kept_def)
  qed
qed

lemma entry_ok_kept: "edges_kept g g' \<Longrightarrow> entry_ok c2v g a \<Longrightarrow> entry_ok c2v g' a"
  by (simp add: edges_kept_def entry_ok_def present_def has_vertex_def)

lemma edges_with_links:
  "graph_inv g \<Longrightarrow> \<forall>a \<in> set as. entry_ok c2v g a \<Longrightarrow> entry_ok c2v g b \<Longrightarrow>
   \<exists>g'. edges_with c2v as b g = Inr g' \<and> graph_inv g' \<and> edges_kept g g' \<and>
     (\<forall>a \<in> set as. c2v ! fst a ! snd a \<noteq> c2v ! fst b ! snd b \<longrightarrow>
        c2v ! fst b ! snd b \<in> set (adjacent g' ! (c2v ! fst a ! snd a)))"
proof (induction as arbitrary: g)
  case Nil
  then show ?case using edges_kept_refl by simp
next
  case (Cons a as)
  let ?v1 = "c2v ! fst a ! snd a" and ?v2 = "c2v ! fst b ! snd b"
  have oa: "entry_ok c2v g a" and ob: "entry_ok c2v g b" using Cons.prems by simp_all
  have va: "vertex_at c2v a = Inr ?v1" and vb: "vertex_at c2v b = Inr ?v2"
    using oa ob by (simp_all add: vertex_at_def entry_ok_def)
  have "\<exists>g1. (if ?v1 \<noteq> ?v2 then add_edge ?v1 ?v2 g else Inr g) = Inr g1 \<and> graph_inv g1 \<and>
          edges_kept g g1 \<and> (?v1 \<noteq> ?v2 \<longrightarrow> ?v2 \<in> set (adjacent g1 ! ?v1))"
  proof (cases "?v1 = ?v2")
    case True
    then show ?thesis using Cons.prems(1) edges_kept_refl by simp
  next
    case False
    have "present g ?v1" "present g ?v2" using oa ob by (simp_all add: entry_ok_def)
    from add_edge_links [OF Cons.prems(1) this False] show ?thesis using False by simp
  qed
  then obtain g1 where
    e1: "(if ?v1 \<noteq> ?v2 then add_edge ?v1 ?v2 g else Inr g) = Inr g1" and i1: "graph_inv g1"
    and k1: "edges_kept g g1" and n1: "?v1 \<noteq> ?v2 \<longrightarrow> ?v2 \<in> set (adjacent g1 ! ?v1)"
    by blast
  have as1: "\<forall>a \<in> set as. entry_ok c2v g1 a" and b1: "entry_ok c2v g1 b"
    using Cons.prems entry_ok_kept [OF k1] by simp_all
  from Cons.IH [OF i1 as1 b1] obtain g' where
    e': "edges_with c2v as b g1 = Inr g'" and i': "graph_inv g'" and k': "edges_kept g1 g'"
    and n': "\<forall>a \<in> set as. c2v ! fst a ! snd a \<noteq> ?v2 \<longrightarrow> ?v2 \<in> set (adjacent g' ! (c2v ! fst a ! snd a))"
    by blast
  have step: "edges_with c2v (a # as) b g = Inr g'"
    using va vb e1 e' by simp
  have kept: "edges_kept g g'" using edges_kept_trans [OF Cons.prems(1) i1 k1 k'] .
  have "?v1 < length (adjacent g1)"
    using present_in_range [OF i1] entry_ok_kept [OF k1 oa] by (simp add: entry_ok_def)
  then have "?v1 \<noteq> ?v2 \<longrightarrow> ?v2 \<in> set (adjacent g' ! ?v1)"
    using n1 k' unfolding edges_kept_def by blast
  then show ?case using step i' kept n' by simp
qed


lemma pairs_linked_kept:
  assumes inv: "graph_inv g" and k: "edges_kept g g'" and ok: "\<forall>a \<in> set xs. entry_ok c2v g a"
    and l: "pairs_linked c2v g xs"
  shows "pairs_linked c2v g' xs"
  unfolding pairs_linked_def
proof (intro ballI impI)
  fix a b assume a: "a \<in> set xs" and b: "b \<in> set xs"
    and ne: "c2v ! fst a ! snd a \<noteq> c2v ! fst b ! snd b"
  have "c2v ! fst a ! snd a < length (adjacent g)"
    using ok a present_in_range [OF inv] by (simp add: entry_ok_def)
  moreover have "c2v ! fst b ! snd b \<in> set (adjacent g ! (c2v ! fst a ! snd a))"
    using l a b ne unfolding pairs_linked_def by blast
  ultimately show "c2v ! fst b ! snd b \<in> set (adjacent g' ! (c2v ! fst a ! snd a))"
    using k unfolding edges_kept_def by blast
qed

lemma edges_among_links:
  "graph_inv g \<Longrightarrow> \<forall>a \<in> set (before @ rest). entry_ok c2v g a \<Longrightarrow> pairs_linked c2v g before \<Longrightarrow>
   \<exists>g'. edges_among c2v before rest g = Inr g' \<and> graph_inv g' \<and> edges_kept g g' \<and>
     pairs_linked c2v g' (before @ rest)"
proof (induction rest arbitrary: before g)
  case Nil
  then show ?case using edges_kept_refl by simp
next
  case (Cons b rest)
  let ?vb = "c2v ! fst b ! snd b"
  have okb: "\<forall>a \<in> set before. entry_ok c2v g a" and ob: "entry_ok c2v g b"
    using Cons.prems(2) by simp_all
  from edges_with_links [OF Cons.prems(1) okb ob] obtain g1 where
    e1: "edges_with c2v before b g = Inr g1" and i1: "graph_inv g1" and k1: "edges_kept g g1"
    and n1: "\<forall>a \<in> set before. c2v ! fst a ! snd a \<noteq> ?vb \<longrightarrow>
        ?vb \<in> set (adjacent g1 ! (c2v ! fst a ! snd a))"
    by blast
  have ok1: "\<forall>a \<in> set ((before @ [b]) @ rest). entry_ok c2v g1 a"
    using Cons.prems(2) entry_ok_kept [OF k1] by simp
  have old: "pairs_linked c2v g1 before"
    using pairs_linked_kept [OF Cons.prems(1) k1 okb Cons.prems(3)] .
  have sym: "\<And>v w. v < length (adjacent g1) \<Longrightarrow> w \<in> set (adjacent g1 ! v) \<Longrightarrow>
      v \<in> set (adjacent g1 ! w)"
    using i1 unfolding graph_inv_def adjacency_symmetric_def by blast
  have rng: "c2v ! fst a ! snd a < length (adjacent g1)" if "a \<in> set before" for a
    using that ok1 present_in_range [OF i1] by (simp add: entry_ok_def)
  have pl: "pairs_linked c2v g1 (before @ [b])"
    unfolding pairs_linked_def
  proof (intro ballI impI)
    fix a c assume a: "a \<in> set (before @ [b])" and c: "c \<in> set (before @ [b])"
      and ne: "c2v ! fst a ! snd a \<noteq> c2v ! fst c ! snd c"
    consider "a \<in> set before" "c \<in> set before" | "a \<in> set before" "c = b"
      | "a = b" "c \<in> set before" | "a = b" "c = b"
      using a c by auto
    then show "c2v ! fst c ! snd c \<in> set (adjacent g1 ! (c2v ! fst a ! snd a))"
    proof cases
      case 1
      then show ?thesis using old ne unfolding pairs_linked_def by blast
    next
      case 2
      then show ?thesis using n1 ne by blast
    next
      case 3
      then have "?vb \<in> set (adjacent g1 ! (c2v ! fst c ! snd c))" using n1 ne by metis
      from sym [OF rng [OF 3(2)] this] show ?thesis using 3 by simp
    next
      case 4
      then show ?thesis using ne by simp
    qed
  qed
  from Cons.IH [OF i1 ok1 pl] obtain g' where
    e': "edges_among c2v (before @ [b]) rest g1 = Inr g'" and i': "graph_inv g'"
    and k': "edges_kept g1 g'" and p': "pairs_linked c2v g' ((before @ [b]) @ rest)" by blast
  have "edges_among c2v before (b # rest) g = Inr g'" using e1 e' by simp
  moreover have "edges_kept g g'" using edges_kept_trans [OF Cons.prems(1) i1 k1 k'] .
  ultimately show ?case using i' p' by simp
qed

lemma conflict_edges_links:
  "graph_inv g \<Longrightarrow> \<forall>xs \<in> set xss. \<forall>a \<in> set xs. entry_ok c2v g a \<Longrightarrow>
   \<exists>g'. conflict_edges c2v xss g = Inr g' \<and> graph_inv g' \<and> edges_kept g g' \<and>
     (\<forall>xs \<in> set xss. pairs_linked c2v g' xs)"
proof (induction xss arbitrary: g)
  case Nil
  then show ?case using edges_kept_refl by simp
next
  case (Cons xs xss)
  have ok: "\<forall>a \<in> set ([] @ xs). entry_ok c2v g a" using Cons.prems(2) by simp
  have "pairs_linked c2v g []" by (simp add: pairs_linked_def)
  from edges_among_links [OF Cons.prems(1) ok this] obtain g1 where
    e1: "edges_among c2v [] xs g = Inr g1" and i1: "graph_inv g1" and k1: "edges_kept g g1"
    and p1: "pairs_linked c2v g1 xs" by auto
  have ok1: "\<forall>ys \<in> set xss. \<forall>a \<in> set ys. entry_ok c2v g1 a"
    using Cons.prems(2) entry_ok_kept [OF k1] by simp
  from Cons.IH [OF i1 ok1] obtain g' where
    e': "conflict_edges c2v xss g1 = Inr g'" and i': "graph_inv g'" and k': "edges_kept g1 g'"
    and p': "\<forall>ys \<in> set xss. pairs_linked c2v g' ys" by blast
  have okx: "\<forall>a \<in> set xs. entry_ok c2v g1 a"
    using Cons.prems(2) entry_ok_kept [OF k1] by simp
  have "pairs_linked c2v g' xs" using pairs_linked_kept [OF i1 k' okx p1] .
  moreover have "conflict_edges c2v (xs # xss) g = Inr g'" using e1 e' by simp
  moreover have "edges_kept g g'" using edges_kept_trans [OF Cons.prems(1) i1 k1 k'] .
  ultimately show ?case using i' p' by simp
qed


lemma network_cuts_graph_spec:
  assumes gr: "gates_in_range ctx"
  shows "\<exists>g m. network_cuts_graph ctx azg = Inr (g, m) \<and> graph_inv g \<and>
     length (weights g) = length m \<and> (\<forall>v < length m. present g v) \<and>
     (\<forall>v < length m. \<forall>w < length m. \<forall>x.
        x \<in> set (touched ctx azg (m ! v)) \<and> x \<in> set (touched ctx azg (m ! w)) \<and>
        v mod 2 ^ 32 \<noteq> w mod 2 ^ 32 \<longrightarrow>
        w mod 2 ^ 32 \<in> set (adjacent g ! (v mod 2 ^ 32)))"
proof -
  let ?N = "ctx_nodes_size ctx"
  let ?init = "\<lparr>cg_graph = empty_graph, cg_conflicts = replicate ?N [],
      cg_vertex_to_cut_addr = [], cg_cut_addr_to_vertex = replicate ?N []\<rparr>"
  have g0: "cg_graph_ok ?init" using graph_inv_empty by (simp add: cg_graph_ok_def empty_graph_def)
  have v0: "cg_vertices_ok ctx azg {} ?init" by (simp add: cg_vertices_ok_def)
  have c0: "cg_conflicts_ok ctx ?init" by (simp add: cg_conflicts_ok_def)
  have u0: "cg_unvisited_ok ctx {} ?init" by (simp add: cg_unvisited_ok_def)
  from visit_nodes_inv [OF g0 v0 c0 u0 _ _ gr, of "[0..<ctx_size ctx]"] obtain st where
    e1: "visit_nodes ctx azg [0..<ctx_size ctx] ?init = Inr st" and g: "cg_graph_ok st"
    and v: "cg_vertices_ok ctx azg ({} \<union> set [0..<ctx_size ctx]) st" and c: "cg_conflicts_ok ctx st"
    by auto
  let ?c2v = "cg_cut_addr_to_vertex st" and ?m = "cg_vertex_to_cut_addr st"
  have inv: "graph_inv (cg_graph st)" using g by (simp add: cg_graph_ok_def)
  have ok: "\<forall>xs \<in> set (cg_conflicts st). \<forall>a \<in> set xs. entry_ok ?c2v (cg_graph st) a"
  proof (intro ballI)
    fix xs a assume "xs \<in> set (cg_conflicts st)" and a: "a \<in> set xs"
    then obtain x where x: "x < ?N" and xs: "xs = cg_conflicts st ! x"
      using c by (auto simp: in_set_conv_nth cg_conflicts_ok_def)
    have "fst a < ?N \<and> snd a < length (?c2v ! fst a) \<and> ?c2v ! fst a ! snd a < length ?m"
      using c x a xs unfolding cg_conflicts_ok_def by blast
    then show "entry_ok ?c2v (cg_graph st) a"
      using c g by (simp add: entry_ok_def cg_conflicts_ok_def cg_graph_ok_def)
  qed
  from conflict_edges_links [OF inv ok] obtain g' where
    e2: "conflict_edges ?c2v (cg_conflicts st) (cg_graph st) = Inr g'" and i': "graph_inv g'"
    and k: "edges_kept (cg_graph st) g'"
    and p: "\<forall>xs \<in> set (cg_conflicts st). pairs_linked ?c2v g' xs" by blast
  have run: "network_cuts_graph ctx azg = Inr (g', ?m)"
    using e1 e2 by (simp add: network_cuts_graph_def)
  have w: "weights g' = weights (cg_graph st)" using k by (simp add: edges_kept_def)
  have len: "length (weights g') = length ?m" using w g by (simp add: cg_graph_ok_def)
  have pres: "\<forall>v < length ?m. present g' v"
    using g w by (simp add: cg_graph_ok_def present_def has_vertex_def)
  have link: "\<forall>v < length ?m. \<forall>w < length ?m. \<forall>x.
        x \<in> set (touched ctx azg (?m ! v)) \<and> x \<in> set (touched ctx azg (?m ! w)) \<and>
        v mod 2 ^ 32 \<noteq> w mod 2 ^ 32 \<longrightarrow>
        w mod 2 ^ 32 \<in> set (adjacent g' ! (v mod 2 ^ 32))"
  proof (intro allI impI)
    fix v w x assume vl: "v < length ?m" and wl: "w < length ?m"
      and h: "x \<in> set (touched ctx azg (?m ! v)) \<and> x \<in> set (touched ctx azg (?m ! w)) \<and>
        v mod 2 ^ 32 \<noteq> w mod 2 ^ 32"
    have fv: "?c2v ! fst (?m ! v) ! snd (?m ! v) = v mod 2 ^ 32"
      and xv: "x < ?N \<and> ?m ! v \<in> set (cg_conflicts st ! x)"
      using v vl h unfolding cg_vertices_ok_def by blast+
    have fw: "?c2v ! fst (?m ! w) ! snd (?m ! w) = w mod 2 ^ 32"
      and xw: "x < ?N \<and> ?m ! w \<in> set (cg_conflicts st ! x)"
      using v wl h unfolding cg_vertices_ok_def by blast+
    have "cg_conflicts st ! x \<in> set (cg_conflicts st)"
      using xv c by (simp add: cg_conflicts_ok_def)
    then have "pairs_linked ?c2v g' (cg_conflicts st ! x)" using p by blast
    then show "w mod 2 ^ 32 \<in> set (adjacent g' ! (v mod 2 ^ 32))"
      unfolding pairs_linked_def using xv xw fv fw h by metis
  qed
  show ?thesis using run i' len pres link by blast
qed

lemma select_vertices_independent:
  assumes inv: "graph_inv g" and rng: "\<forall>i \<in> set order. i < length (weights g)"
  shows "\<exists>sel g'. select_vertices order g [] = Inr (sel, g') \<and> distinct sel \<and>
     set sel \<subseteq> set order \<and> (\<forall>v \<in> set sel. \<forall>w \<in> set sel. v \<noteq> w \<longrightarrow> w \<notin> set (adjacent g ! v))"
proof -
  let ?R = "{u. \<not> present g u}"
  let ?sel = "greedy_scan (adjacent g) order ?R"
  from select_vertices_greedy [OF inv restricts_refl [OF inv] rng, of "[]"] obtain g' where
    e: "select_vertices order g [] = Inr (?sel, g')" by auto
  have sub: "set ?sel \<subseteq> set order" by (rule greedy_scan_subset)
  have alen: "length (adjacent g) = length (weights g)" using inv by (simp add: graph_inv_def)
  have sym: "\<And>v w. v < length (adjacent g) \<Longrightarrow> w \<in> set (adjacent g ! v) \<Longrightarrow>
      v \<in> set (adjacent g ! w)"
    using inv unfolding graph_inv_def adjacency_symmetric_def by blast
  have ind: "\<forall>v \<in> set ?sel. \<forall>w \<in> set ?sel. v \<noteq> w \<longrightarrow> w \<notin> set (adjacent g ! v)"
  proof (intro ballI impI)
    fix v w assume v: "v \<in> set ?sel" and w: "w \<in> set ?sel" and ne: "v \<noteq> w"
    obtain j where j: "j < length ?sel" "?sel ! j = v" using v by (auto simp: in_set_conv_nth)
    obtain k where k: "k < length ?sel" "?sel ! k = w" using w by (auto simp: in_set_conv_nth)
    have vr: "v < length (adjacent g)" using v sub rng alen by auto
    have "j \<noteq> k" using j k ne by auto
    then consider "j < k" | "k < j" by linarith
    then show "w \<notin> set (adjacent g ! v)"
    proof cases
      case 1
      from greedy_scan_independent [OF 1 k(1)] show ?thesis using j k by simp
    next
      case 2
      from greedy_scan_independent [OF 2 j(1)] have "v \<notin> set (adjacent g ! w)" using j k by simp
      then show ?thesis using sym [OF vr] by blast
    qed
  qed
  show ?thesis using e greedy_scan_distinct [of "adjacent g" order ?R] sub ind by blast
qed


text \<open>
  C6: when every gate a cut view enumerates is a node the cuts were enumerated for, the
  conflict graph is built without failure, and with fewer than \<open>2^32\<close> candidates either
  selection strategy returns a list of distinct vertices that are pairwise non-adjacent
  in the conflict graph and whose candidates touch pairwise disjoint sets of gates.
\<close>

theorem selected_candidates_disjoint:
  assumes gr: "gates_in_range ctx"
  shows "\<exists>g m. network_cuts_graph ctx azg = Inr (g, m) \<and>
     (length m < 2 ^ 32 \<longrightarrow>
        (\<exists>sel g'. select_candidates strategy g = Inr (sel, g') \<and> distinct sel \<and>
           (\<forall>v \<in> set sel. \<forall>w \<in> set sel. v \<noteq> w \<longrightarrow>
              v < length m \<and> w < length m \<and> w \<notin> set (adjacent g ! v) \<and>
              set (touched ctx azg (m ! v)) \<inter> set (touched ctx azg (m ! w)) = {})))"
proof -
  from network_cuts_graph_spec [OF gr, of azg] obtain g m where
    run: "network_cuts_graph ctx azg = Inr (g, m)" and inv: "graph_inv g"
    and len: "length (weights g) = length m" and pres: "\<forall>v < length m. present g v"
    and link: "\<forall>v < length m. \<forall>w < length m. \<forall>x.
        x \<in> set (touched ctx azg (m ! v)) \<and> x \<in> set (touched ctx azg (m ! w)) \<and>
        v mod 2 ^ 32 \<noteq> w mod 2 ^ 32 \<longrightarrow>
        w mod 2 ^ 32 \<in> set (adjacent g ! (v mod 2 ^ 32))"
    by blast
  have "\<exists>sel g'. select_candidates strategy g = Inr (sel, g') \<and> distinct sel \<and>
           (\<forall>v \<in> set sel. \<forall>w \<in> set sel. v \<noteq> w \<longrightarrow>
              v < length m \<and> w < length m \<and> w \<notin> set (adjacent g ! v) \<and>
              set (touched ctx azg (m ! v)) \<inter> set (touched ctx azg (m ! w)) = {})"
    if small: "length m < 2 ^ 32"
  proof -
    let ?N = "unat (num_vertices g)"
    have n32: "length (weights g) < 2 ^ 32" using small len by simp
    have N: "?N = count_present g" using graph_inv_counts(1) [OF inv n32] .
    have Nle: "?N \<le> length (weights g)" unfolding N by (simp add: count_present_def)
    have alen: "length (adjacent g) = length (weights g)" using inv by (simp add: graph_inv_def)
    obtain order where
      sel_eq: "select_candidates strategy g = select_vertices order g []"
      and ord: "\<forall>i \<in> set order. i < length (weights g)"
    proof (cases strategy)
      case Minimize_weight
      have "select_candidates strategy g =
          select_vertices (stable_sort (gwmin_before g) [0..<?N]) g []"
        using Minimize_weight Nle alen
        by (simp add: select_candidates_def maximum_weighted_independent_set_gwmin_def Let_def)
      moreover have "\<forall>i \<in> set (stable_sort (gwmin_before g) [0..<?N]). i < length (weights g)"
        using Nle by (simp add: set_stable_sort)
      ultimately show ?thesis using that by blast
    next
      case Greedy
      have "select_candidates strategy g = select_vertices [0..<?N] g []"
        using Greedy by (simp add: select_candidates_def maximal_weighted_independent_set_def)
      moreover have "\<forall>i \<in> set [0..<?N]. i < length (weights g)" using Nle by simp
      ultimately show ?thesis using that by blast
    qed
    from select_vertices_independent [OF inv ord] obtain sel g' where
      e: "select_vertices order g [] = Inr (sel, g')" and d: "distinct sel"
      and sub: "set sel \<subseteq> set order"
      and ind: "\<forall>v \<in> set sel. \<forall>w \<in> set sel. v \<noteq> w \<longrightarrow> w \<notin> set (adjacent g ! v)"
      by blast
    have "v < length m \<and> w < length m \<and> w \<notin> set (adjacent g ! v) \<and>
        set (touched ctx azg (m ! v)) \<inter> set (touched ctx azg (m ! w)) = {}"
      if v: "v \<in> set sel" and w: "w \<in> set sel" and ne: "v \<noteq> w" for v w
    proof -
      have vl: "v < length m" and wl: "w < length m" using v w sub ord len by auto
      have vm: "v mod 2 ^ 32 = v" and wm: "w mod 2 ^ 32 = w" using vl wl small by simp_all
      have na: "w \<notin> set (adjacent g ! v)" using ind v w ne by blast
      have "set (touched ctx azg (m ! v)) \<inter> set (touched ctx azg (m ! w)) = {}"
      proof (rule ccontr)
        assume "set (touched ctx azg (m ! v)) \<inter> set (touched ctx azg (m ! w)) \<noteq> {}"
        then obtain x where "x \<in> set (touched ctx azg (m ! v))" "x \<in> set (touched ctx azg (m ! w))"
          by blast
        then have "w mod 2 ^ 32 \<in> set (adjacent g ! (v mod 2 ^ 32))"
          using link vl wl ne vm wm by metis
        then show False using na vm wm by simp
      qed
      then show ?thesis using vl wl na by simp
    qed
    then show ?thesis using sel_eq e d by auto
  qed
  then show ?thesis using run by blast
qed

lemma replicate_six: "replicate 6 x = [x, x, x, x, x, x]"
  by (simp add: numeral_eq_Suc)

lemmas cuts_eval = network_cuts_graph_def visit_node_def example_context_def cut_accepted_def
  vertex_at_def select_candidates_def touched_def accepted_cuts_def

theorem selected_candidates_disjoint_witness:
  "gates_in_range example_context \<and>
   network_cuts_graph example_context False =
     Inr (\<lparr>num_vertices = 3, num_edges = 1, adjacent = [[1], [0], []], weights = [1, 2, 1]\<rparr>,
          [(3, 0), (4, 0), (5, 0)]) \<and>
   select_candidates Minimize_weight
     \<lparr>num_vertices = 3, num_edges = 1, adjacent = [[1], [0], []], weights = [1, 2, 1]\<rparr> =
     Inr ([1, 2], \<lparr>num_vertices = 0, num_edges = 0, adjacent = [[], [], []],
          weights = [- 1, - 1, - 1]\<rparr>) \<and>
   set (touched example_context False ([(3, 0), (4, 0), (5, 0)] ! 1)) \<inter>
     set (touched example_context False ([(3, 0), (4, 0), (5, 0)] ! 2)) = {}"
proof -
  have gr: "gates_in_range example_context"
    by (simp add: gates_in_range_def example_context_def)
  have run: "network_cuts_graph example_context False =
     Inr (\<lparr>num_vertices = 3, num_edges = 1, adjacent = [[1], [0], []], weights = [1, 2, 1]\<rparr>,
          [(3, 0), (4, 0), (5, 0)])"
    by (simp add: cuts_eval graph_eval upt_rec replicate_six)
  have sel: "select_candidates Minimize_weight
     \<lparr>num_vertices = 3, num_edges = 1, adjacent = [[1], [0], []], weights = [1, 2, 1]\<rparr> =
     Inr ([1, 2], \<lparr>num_vertices = 0, num_edges = 0, adjacent = [[], [], []],
          weights = [- 1, - 1, - 1]\<rparr>)"
    by (simp add: cuts_eval graph_eval select_eval upt_rec)
  let ?G = "\<lparr>num_vertices = 3, num_edges = 1, adjacent = [[1], [0], []], weights = [1, 2, 1]\<rparr>"
  let ?M = "[(3, 0), (4, 0), (5, 0)] :: (node \<times> nat) list"
  from selected_candidates_disjoint [OF gr, of False Minimize_weight] obtain g m where
    a: "network_cuts_graph example_context False = Inr (g, m)"
    and b: "length m < 2 ^ 32 \<longrightarrow>
        (\<exists>sel g'. select_candidates Minimize_weight g = Inr (sel, g') \<and> distinct sel \<and>
           (\<forall>v \<in> set sel. \<forall>w \<in> set sel. v \<noteq> w \<longrightarrow>
              v < length m \<and> w < length m \<and> w \<notin> set (adjacent g ! v) \<and>
              set (touched example_context False (m ! v)) \<inter>
              set (touched example_context False (m ! w)) = {}))"
    by blast
  have g: "g = ?G" and m: "m = ?M" using a run by simp_all
  have "length m < 2 ^ 32" unfolding m by simp
  with b obtain sl g' where
    c: "select_candidates Minimize_weight g = Inr (sl, g')"
    and d: "\<forall>v \<in> set sl. \<forall>w \<in> set sl. v \<noteq> w \<longrightarrow>
              v < length m \<and> w < length m \<and> w \<notin> set (adjacent g ! v) \<and>
              set (touched example_context False (m ! v)) \<inter>
              set (touched example_context False (m ! w)) = {}"
    by blast
  have sl: "sl = [1, 2]" using c sel unfolding g by simp
  have "set (touched example_context False (m ! 1)) \<inter>
     set (touched example_context False (m ! 2)) = {}"
    using d [rule_format, of 1 2] unfolding sl by simp
  then show ?thesis using gr run sel unfolding m by simp
qed

section \<open>Structural hashing\<close>



lemma cache_find_bounds: "cache_find tt c k = Some j \<Longrightarrow> k \<le> j \<and> j < k + length c \<and> c ! (j - k) = tt"
proof (induction c arbitrary: k)
  case Nil
  then show ?case by simp
next
  case (Cons t ts)
  show ?case
  proof (cases "t = tt")
    case True
    then show ?thesis using Cons.prems by simp
  next
    case False
    then have "cache_find tt ts (Suc k) = Some j" using Cons.prems by simp
    from Cons.IH [OF this] show ?thesis by (auto simp: Suc_diff_le)
  qed
qed




lemmas ntk_eval = klut_init_def create_pi_def create_po_def incr_fanout_def set_value_def
  create_node_def create_node_literal_def cache_insert_def empty_node_def size_ntk_def Let_def


section \<open>Node substitution\<close>

lemma for_each_append:
  "for_each f (xs @ ys) s = (case for_each f xs s of Inl e \<Rightarrow> Inl e | Inr s' \<Rightarrow> for_each f ys s')"
  by (induction xs arbitrary: s) (auto split: sum.splits)

lemma length_subst_nodes [simp]: "length (subst_nodes o' s i k d ns) = length ns"
  by (simp add: subst_nodes_def)

lemma nth_subst_nodes:
  "x < length ns \<Longrightarrow> subst_nodes o' s i k d ns ! x =
     (ns ! x)\<lparr>children :=
               (if x < i then map (redirect o' s) (children (ns ! x))
                else if x = i then part_children o' s k (children (ns ! x))
                else children (ns ! x)),
             data0_h1 := data0_h1 (ns ! x) + (if x = s then d else 0)\<rparr>"
  by (simp add: subst_nodes_def)

lemma part_children_0 [simp]: "part_children o' s 0 cs = cs"
  by (simp add: part_children_def)

lemma part_children_all [simp]: "part_children o' s (length cs) cs = map (redirect o' s) cs"
  by (simp add: part_children_def)

lemma part_children_nth: "k < length cs \<Longrightarrow> part_children o' s k cs ! k = cs ! k"
  by (simp add: part_children_def nth_append)

lemma length_part_children [simp]: "length (part_children o' s k cs) = length cs"
  by (simp add: part_children_def)

lemma part_children_Suc:
  assumes "k < length cs"
  shows "part_children o' s (Suc k) cs = (part_children o' s k cs)[k := redirect o' s (cs ! k)]"
proof -
  have "part_children o' s k cs = map (redirect o' s) (take k cs) @ cs ! k # drop (Suc k) cs"
    using assms by (simp add: part_children_def Cons_nth_drop_Suc)
  then have "(part_children o' s k cs)[k := redirect o' s (cs ! k)] =
      map (redirect o' s) (take k cs) @ redirect o' s (cs ! k) # drop (Suc k) cs"
    using assms by (simp add: list_update_append)
  then show ?thesis using assms by (simp add: part_children_def take_Suc_conv_app_nth)
qed

lemma subst_nodes_start: "subst_nodes o' s 0 0 0 ns = ns"
  by (rule nth_equalityI) (simp_all add: nth_subst_nodes)

lemma subst_nodes_next:
  "i < length ns \<Longrightarrow>
   subst_nodes o' s i (length (children (ns ! i))) d ns = subst_nodes o' s (Suc i) 0 d ns"
  by (rule nth_equalityI) (auto simp: nth_subst_nodes less_Suc_eq)


lemma substitute_child_step:
  assumes i: "i < length ns" and s: "s < length ns" and k: "k < length (children (ns ! i))"
    and st: "nodes ntk = subst_nodes o' s i k d ns"
  shows "substitute_child o' s i k ntk =
     Inr (ntk\<lparr>nodes := subst_nodes o' s i (Suc k)
                     (d + (if children (ns ! i) ! k = o' then 1 else 0)) ns,
              on_modified := on_modified ntk @
                (if children (ns ! i) ! k = o' then [(i, part_children o' s k (children (ns ! i)))]
                 else [])\<rparr>)"
proof -
  let ?cs = "children (ns ! i)"
  have ci: "children (nodes ntk ! i) = part_children o' s k ?cs"
    using i by (simp add: st nth_subst_nodes)
  have ck: "children (nodes ntk ! i) ! k = ?cs ! k" using k by (simp add: ci part_children_nth)
  have li: "i < length (nodes ntk)" using i by (simp add: st)
  have lk: "k < length (children (nodes ntk ! i))" using k unfolding ci by simp
  have ls: "s < length (nodes ntk)" using s by (simp add: st)
  show ?thesis
  proof (cases "?cs ! k = o'")
    case False
    have "part_children o' s (Suc k) ?cs = part_children o' s k ?cs"
      using False k by (simp add: part_children_Suc redirect_def ci [symmetric] ck [symmetric])
    then have "subst_nodes o' s i (Suc k) d ns = subst_nodes o' s i k d ns"
      by (intro nth_equalityI) (simp_all add: nth_subst_nodes)
    then show ?thesis
      using False li lk ck st by (simp add: substitute_child_def)
  next
    case True
    let ?n1 = "(nodes ntk)[i := (nodes ntk ! i)\<lparr>children := (part_children o' s k ?cs)[k := s]\<rparr>]"
    have pc: "(part_children o' s k ?cs)[k := s] = part_children o' s (Suc k) ?cs"
      using True k by (simp add: part_children_Suc redirect_def)
    have eq: "?n1[s := (?n1 ! s)\<lparr>data0_h1 := data0_h1 (?n1 ! s) + 1\<rparr>] =
        subst_nodes o' s i (Suc k) (d + 1) ns"
    proof (rule nth_equalityI)
      show "length (?n1[s := (?n1 ! s)\<lparr>data0_h1 := data0_h1 (?n1 ! s) + 1\<rparr>]) =
          length (subst_nodes o' s i (Suc k) (d + 1) ns)"
        by (simp add: st)
    next
      fix x assume "x < length (?n1[s := (?n1 ! s)\<lparr>data0_h1 := data0_h1 (?n1 ! s) + 1\<rparr>])"
      then have x: "x < length ns" by (simp add: st)
      show "?n1[s := (?n1 ! s)\<lparr>data0_h1 := data0_h1 (?n1 ! s) + 1\<rparr>] ! x =
          subst_nodes o' s i (Suc k) (d + 1) ns ! x"
        using x i s pc
        by (cases "x = s"; cases "x = i")
           (auto simp: nth_list_update st nth_subst_nodes add.assoc)
    qed
    have "substitute_child o' s i k ntk =
        Inr (ntk\<lparr>nodes := ?n1[s := (?n1 ! s)\<lparr>data0_h1 := data0_h1 (?n1 ! s) + 1\<rparr>],
                 on_modified := on_modified ntk @ [(i, part_children o' s k ?cs)]\<rparr>)"
      using True li lk ck ls
      by (simp add: substitute_child_def incr_fanout_def ci Let_def)
    then show ?thesis using True eq by simp
  qed
qed


lemma child_events_Suc:
  "child_events o' s i cs (Suc m) =
     child_events o' s i cs m @ (if cs ! m = o' then [(i, part_children o' s m cs)] else [])"
  by (simp add: child_events_def)

lemma count_list_take_Suc:
  "m < length cs \<Longrightarrow>
   count_list (take (Suc m) cs) x = count_list (take m cs) x + (if cs ! m = x then 1 else 0)"
  by (simp add: take_Suc_conv_app_nth)

lemma substitute_children_loop:
  assumes i: "i < length ns" and s: "s < length ns"
    and st: "nodes ntk = subst_nodes o' s i 0 d ns"
  shows "m \<le> length (children (ns ! i)) \<Longrightarrow>
     for_each (substitute_child o' s i) [0..<m] ntk =
       Inr (ntk\<lparr>nodes := subst_nodes o' s i m
                       (d + of_nat (count_list (take m (children (ns ! i))) o')) ns,
                on_modified := on_modified ntk @ child_events o' s i (children (ns ! i)) m\<rparr>)"
proof (induction m)
  case 0
  then show ?case using st by (simp add: child_events_def)
next
  case (Suc m)
  let ?cs = "children (ns ! i)"
  let ?d = "d + of_nat (count_list (take m ?cs) o')"
  let ?S = "ntk\<lparr>nodes := subst_nodes o' s i m ?d ns,
                on_modified := on_modified ntk @ child_events o' s i ?cs m\<rparr>"
  have m: "m < length ?cs" using Suc.prems by simp
  have ih: "for_each (substitute_child o' s i) [0..<m] ntk = Inr ?S"
    using Suc.IH m by simp
  have nS: "nodes ?S = subst_nodes o' s i m ?d ns" by simp
  have step: "substitute_child o' s i m ?S =
     Inr (?S\<lparr>nodes := subst_nodes o' s i (Suc m) (?d + (if ?cs ! m = o' then 1 else 0)) ns,
              on_modified := on_modified ?S @
                (if ?cs ! m = o' then [(i, part_children o' s m ?cs)] else [])\<rparr>)"
    by (rule substitute_child_step [OF i s m nS])
  have d': "?d + (if ?cs ! m = o' then 1 else 0) = d + of_nat (count_list (take (Suc m) ?cs) o')"
    using m by (simp add: count_list_take_Suc)
  have "for_each (substitute_child o' s i) [0..<Suc m] ntk = substitute_child o' s i m ?S"
    using ih by (simp add: for_each_append split: sum.splits)
  then show ?case
    unfolding step d' by (simp add: child_events_Suc)
qed

lemma substitute_in_node_step:
  assumes i: "i < length ns" and s: "s < length ns"
    and st: "nodes ntk = subst_nodes o' s i 0 d ns"
  shows "substitute_in_node o' s i ntk =
       Inr (ntk\<lparr>nodes := subst_nodes o' s (Suc i) 0
                       (d + of_nat (count_list (children (ns ! i)) o')) ns,
                on_modified := on_modified ntk @ node_events o' s i (children (ns ! i))\<rparr>)"
proof -
  have c: "children (nodes ntk ! i) = children (ns ! i)"
    using i by (simp add: st nth_subst_nodes)
  have li: "i < length (nodes ntk)" using i by (simp add: st)
  have "substitute_in_node o' s i ntk =
      for_each (substitute_child o' s i) [0..<length (children (ns ! i))] ntk"
    using li c by (simp add: substitute_in_node_def)
  also have "\<dots> = Inr (ntk\<lparr>nodes := subst_nodes o' s i (length (children (ns ! i)))
                       (d + of_nat (count_list (take (length (children (ns ! i))) (children (ns ! i))) o')) ns,
                on_modified := on_modified ntk @
                  child_events o' s i (children (ns ! i)) (length (children (ns ! i)))\<rparr>)"
    by (rule substitute_children_loop [OF i s st]) simp
  finally show ?thesis using i by (simp add: subst_nodes_next node_events_def)
qed

lemma substitute_nodes_loop:
  assumes s: "s < length ns" and st: "nodes ntk = ns"
  shows "m \<le> length ns \<Longrightarrow>
     for_each (substitute_in_node o' s) [0..<m] ntk =
       Inr (ntk\<lparr>nodes := subst_nodes o' s m 0
                       (of_nat (sum_list (map (\<lambda>n. count_list (children n) o') (take m ns)))) ns,
                on_modified := on_modified ntk @
                  concat (map (\<lambda>x. node_events o' s x (children (ns ! x))) [0..<m])\<rparr>)"
proof (induction m)
  case 0
  then show ?case using st by (simp add: subst_nodes_start)
next
  case (Suc m)
  let ?d = "of_nat (sum_list (map (\<lambda>n. count_list (children n) o') (take m ns))) :: 32 word"
  let ?S = "ntk\<lparr>nodes := subst_nodes o' s m 0 ?d ns,
                on_modified := on_modified ntk @
                  concat (map (\<lambda>x. node_events o' s x (children (ns ! x))) [0..<m])\<rparr>"
  have m: "m < length ns" using Suc.prems by simp
  have ih: "for_each (substitute_in_node o' s) [0..<m] ntk = Inr ?S" using Suc.IH m by simp
  have nS: "nodes ?S = subst_nodes o' s m 0 ?d ns" by simp
  have step: "substitute_in_node o' s m ?S =
       Inr (?S\<lparr>nodes := subst_nodes o' s (Suc m) 0
                       (?d + of_nat (count_list (children (ns ! m)) o')) ns,
                on_modified := on_modified ?S @ node_events o' s m (children (ns ! m))\<rparr>)"
    by (rule substitute_in_node_step [OF m s nS])
  have d': "?d + of_nat (count_list (children (ns ! m)) o') =
      of_nat (sum_list (map (\<lambda>n. count_list (children n) o') (take (Suc m) ns)))"
    using m by (simp add: take_Suc_conv_app_nth)
  have "for_each (substitute_in_node o' s) [0..<Suc m] ntk = substitute_in_node o' s m ?S"
    using ih by (simp add: for_each_append split: sum.splits)
  then show ?case unfolding step d' by simp
qed


lemma bump_0: "bump s 0 ns = ns"
  by (simp add: bump_def)

lemma bump_bump: "s < length ns \<Longrightarrow> bump s e (bump s d ns) = bump s (d + e) ns"
  by (simp add: bump_def add.assoc)

lemma substitute_output_step:
  assumes s: "s < length ns" and k: "k < length os"
    and so: "outputs ntk = part_children o' s k os" and sn: "nodes ntk = bump s d ns"
  shows "substitute_output o' s k ntk =
     Inr (ntk\<lparr>outputs := part_children o' s (Suc k) os,
              nodes := bump s (d + (if os ! k = o' then 1 else 0)) ns\<rparr>)"
proof -
  have ok: "outputs ntk ! k = os ! k" using k by (simp add: so part_children_nth)
  have lk: "k < length (outputs ntk)" using k by (simp add: so)
  have ls: "s < length (nodes ntk)" using s by (simp add: sn bump_def)
  show ?thesis
  proof (cases "os ! k = o'")
    case False
    then have "part_children o' s (Suc k) os = part_children o' s k os"
      using k by (simp add: part_children_Suc redirect_def so [symmetric] ok [symmetric])
    then show ?thesis using False lk ok so sn by (simp add: substitute_output_def)
  next
    case True
    have pc: "(outputs ntk)[k := s] = part_children o' s (Suc k) os"
      using True k by (simp add: so part_children_Suc redirect_def)
    have "(nodes ntk)[s := (nodes ntk ! s)\<lparr>data0_h1 := data0_h1 (nodes ntk ! s) + 1\<rparr>] =
        bump s (d + 1) ns"
      using bump_bump [OF s, of 1 d] by (simp add: sn bump_def)
    then show ?thesis
      using True lk ok ls pc by (simp add: substitute_output_def incr_fanout_def)
  qed
qed

lemma substitute_outputs_loop:
  assumes s: "s < length ns" and so: "outputs ntk = os" and sn: "nodes ntk = ns"
  shows "m \<le> length os \<Longrightarrow>
     for_each (substitute_output o' s) [0..<m] ntk =
       Inr (ntk\<lparr>outputs := part_children o' s m os,
                nodes := bump s (of_nat (count_list (take m os) o')) ns\<rparr>)"
proof (induction m)
  case 0
  then show ?case using so sn by (simp add: bump_0)
next
  case (Suc m)
  let ?d = "of_nat (count_list (take m os) o') :: 32 word"
  let ?S = "ntk\<lparr>outputs := part_children o' s m os, nodes := bump s ?d ns\<rparr>"
  have m: "m < length os" using Suc.prems by simp
  have ih: "for_each (substitute_output o' s) [0..<m] ntk = Inr ?S" using Suc.IH m by simp
  have step: "substitute_output o' s m ?S =
     Inr (?S\<lparr>outputs := part_children o' s (Suc m) os,
              nodes := bump s (?d + (if os ! m = o' then 1 else 0)) ns\<rparr>)"
    by (rule substitute_output_step [OF s m]) simp_all
  have d': "?d + (if os ! m = o' then 1 else 0) = of_nat (count_list (take (Suc m) os) o')"
    using m by (simp add: count_list_take_Suc)
  have "for_each (substitute_output o' s) [0..<Suc m] ntk = substitute_output o' s m ?S"
    using ih by (simp add: for_each_append split: sum.splits)
  then show ?case unfolding step d' by simp
qed

lemma substitute_node_closed:
  assumes o: "o' < length (nodes ntk)" and s: "s < length (nodes ntk)"
  shows "\<exists>ntk'. substitute_node o' s ntk = Inr ntk' \<and>
     length (nodes ntk') = length (nodes ntk) \<and>
     (\<forall>x < length (nodes ntk). nodes ntk' ! x =
        (nodes ntk ! x)
          \<lparr>children := map (redirect o' s) (children (nodes ntk ! x)),
           data0_h1 := (if x = o' then 0
                        else data0_h1 (nodes ntk ! x) + (if x = s then of_nat (refs ntk o') else 0))\<rparr>) \<and>
     outputs ntk' = map (redirect o' s) (outputs ntk) \<and>
     on_modified ntk' = on_modified ntk @
       concat (map (\<lambda>x. node_events o' s x (children (nodes ntk ! x))) [0..<length (nodes ntk)]) \<and>
     inputs ntk' = inputs ntk \<and> hash ntk' = hash ntk \<and> cache ntk' = cache ntk \<and>
     on_add ntk' = on_add ntk"
proof -
  let ?ns = "nodes ntk" and ?os = "outputs ntk"
  let ?n = "length ?ns"
  let ?d1 = "of_nat (fanin_refs ntk o') :: 32 word"
  let ?d2 = "of_nat (count_list ?os o') :: 32 word"
  let ?ev = "concat (map (\<lambda>x. node_events o' s x (children (?ns ! x))) [0..<?n])"
  let ?N1 = "subst_nodes o' s ?n 0 ?d1 ?ns"
  let ?S1 = "ntk\<lparr>nodes := ?N1, on_modified := on_modified ntk @ ?ev\<rparr>"
  have l1: "for_each (substitute_in_node o' s) [0..<?n] ntk = Inr ?S1"
    using substitute_nodes_loop [OF s refl, of ?n o'] by (simp add: fanin_refs_def)
  let ?S2 = "?S1\<lparr>outputs := part_children o' s (length ?os) ?os, nodes := bump s ?d2 ?N1\<rparr>"
  have s1: "s < length ?N1" using s by simp
  have l2: "for_each (substitute_output o' s) [0..<length (outputs ?S1)] ?S1 = Inr ?S2"
    using substitute_outputs_loop [OF s1, of ?S1 ?os "length ?os" o'] by simp
  let ?N2 = "bump s ?d2 ?N1"
  let ?S3 = "?S2\<lparr>nodes := ?N2[o' := (?N2 ! o')\<lparr>data0_h1 := 0\<rparr>]\<rparr>"
  have lN2: "length ?N2 = ?n" by (simp add: bump_def)
  have run: "substitute_node o' s ntk = Inr ?S3"
    unfolding substitute_node_def l1 using l2 o lN2 by simp
  have nth: "?N2[o' := (?N2 ! o')\<lparr>data0_h1 := 0\<rparr>] ! x =
        (?ns ! x)
          \<lparr>children := map (redirect o' s) (children (?ns ! x)),
           data0_h1 := (if x = o' then 0
                        else data0_h1 (?ns ! x) + (if x = s then of_nat (refs ntk o') else 0))\<rparr>"
    if x: "x < ?n" for x
    using x s o
    by (cases "x = o'"; cases "x = s")
       (simp_all add: nth_list_update bump_def nth_subst_nodes refs_def add.assoc)
  show ?thesis
    using run nth lN2 by simp
qed


lemma length_node_events: "length (node_events o' s i cs) = count_list cs o'"
proof -
  have "count_list cs o' = length (filter ((=) o') (map (nth cs) [0..<length cs]))"
    by (simp add: map_nth count_list_eq_length_filter)
  also have "\<dots> = length (filter (\<lambda>j. o' = cs ! j) [0..<length cs])"
    by (simp add: length_filter_map comp_def)
  also have "filter (\<lambda>j. o' = cs ! j) [0..<length cs] = filter (\<lambda>j. cs ! j = o') [0..<length cs]"
    by (rule filter_cong) auto
  finally show ?thesis by (simp add: node_events_def child_events_def)
qed

lemma length_all_events:
  "length (concat (map (\<lambda>x. node_events o' s x (children (ns ! x))) [0..<length ns])) =
     sum_list (map (\<lambda>n. count_list (children n) o') ns)"
proof -
  have "map (\<lambda>x. count_list (children (ns ! x)) o') [0..<length ns] =
      map (\<lambda>n. count_list (children n) o') (map (\<lambda>x. ns ! x) [0..<length ns])"
    by (simp add: comp_def)
  then show ?thesis
    by (simp add: length_concat comp_def length_node_events map_nth)
qed

lemma part_children_untouched:
  "k \<le> length cs \<Longrightarrow> \<forall>j < k. cs ! j \<noteq> o' \<Longrightarrow> part_children o' s k cs = cs"
proof -
  assume k: "k \<le> length cs" and n: "\<forall>j < k. cs ! j \<noteq> o'"
  have "map (redirect o' s) (take k cs) = take k cs"
  proof (rule map_idI)
    fix c assume "c \<in> set (take k cs)"
    then obtain j where "j < k" "c = cs ! j"
      using k by (auto simp: in_set_conv_nth)
    then show "redirect o' s c = c" using n by (simp add: redirect_def)
  qed
  then show ?thesis by (simp add: part_children_def)
qed

lemma child_events_empty: "(child_events o' s i cs k = []) = (\<forall>j < k. cs ! j \<noteq> o')"
  by (auto simp: child_events_def filter_empty_conv)

lemma hd_child_events:
  "k \<le> length cs \<Longrightarrow> child_events o' s i cs k \<noteq> [] \<Longrightarrow> hd (child_events o' s i cs k) = (i, cs)"
proof (induction k)
  case 0
  then show ?case by (simp add: child_events_def)
next
  case (Suc k)
  show ?case
  proof (cases "child_events o' s i cs k = []")
    case True
    then have n: "\<forall>j < k. cs ! j \<noteq> o'" by (simp add: child_events_empty)
    have "cs ! k = o'" using Suc.prems(2) True by (simp add: child_events_Suc split: if_splits)
    moreover have "part_children o' s k cs = cs"
      using part_children_untouched [of k cs o' s] Suc.prems(1) n by simp
    ultimately show ?thesis using True by (simp add: child_events_Suc)
  next
    case False
    then show ?thesis using Suc by (simp add: child_events_Suc)
  qed
qed

lemma hd_node_events: "o' \<in> set cs \<Longrightarrow> hd (node_events o' s i cs) = (i, cs)"
proof -
  assume "o' \<in> set cs"
  then have "child_events o' s i cs (length cs) \<noteq> []"
    by (auto simp: child_events_empty in_set_conv_nth)
  then show ?thesis using hd_child_events [of "length cs" cs o' s i] by (simp add: node_events_def)
qed

text \<open>
  C1, as amended: for nodes \<open>old_node\<close> and \<open>new_signal\<close> of the network,
  \<open>substitute_node\<close> rewrites every fanin reference to \<open>old_node\<close> in every node and
  every primary output to \<open>new_signal\<close>, adds the number of references moved to the
  fanout counter of \<open>new_signal\<close> (modulo \<open>2^32\<close>) and then sets the counter of
  \<open>old_node\<close> to zero. It fires one \<open>on_modified\<close> notification for each fanin reference
  rewritten, in node order, and the first notification of a node carries that node's
  pre-substitution fanin list.
\<close>

theorem substitute_node_effect:
  assumes "old_node < length (nodes ntk)" and "new_signal < length (nodes ntk)"
  shows "\<exists>ntk'. substitute_node old_node new_signal ntk = Inr ntk' \<and>
     length (nodes ntk') = length (nodes ntk) \<and>
     (\<forall>x < length (nodes ntk).
        children (nodes ntk' ! x) = map (redirect old_node new_signal) (children (nodes ntk ! x)) \<and>
        data0_h1 (nodes ntk' ! x) =
          (if x = old_node then 0
           else if x = new_signal then data0_h1 (nodes ntk ! x) + of_nat (refs ntk old_node)
           else data0_h1 (nodes ntk ! x)) \<and>
        length (node_events old_node new_signal x (children (nodes ntk ! x))) =
          count_list (children (nodes ntk ! x)) old_node \<and>
        (old_node \<in> set (children (nodes ntk ! x)) \<longrightarrow>
           hd (node_events old_node new_signal x (children (nodes ntk ! x))) =
             (x, children (nodes ntk ! x)))) \<and>
     outputs ntk' = map (redirect old_node new_signal) (outputs ntk) \<and>
     on_modified ntk' = on_modified ntk @
       concat (map (\<lambda>x. node_events old_node new_signal x (children (nodes ntk ! x)))
                 [0..<length (nodes ntk)]) \<and>
     length (on_modified ntk') = length (on_modified ntk) + fanin_refs ntk old_node"
proof -
  from substitute_node_closed [OF assms] obtain ntk' where
    r: "substitute_node old_node new_signal ntk = Inr ntk'"
    and l: "length (nodes ntk') = length (nodes ntk)"
    and n: "\<forall>x < length (nodes ntk). nodes ntk' ! x =
        (nodes ntk ! x)
          \<lparr>children := map (redirect old_node new_signal) (children (nodes ntk ! x)),
           data0_h1 := (if x = old_node then 0
                        else data0_h1 (nodes ntk ! x) +
                          (if x = new_signal then of_nat (refs ntk old_node) else 0))\<rparr>"
    and os: "outputs ntk' = map (redirect old_node new_signal) (outputs ntk)"
    and ev: "on_modified ntk' = on_modified ntk @
       concat (map (\<lambda>x. node_events old_node new_signal x (children (nodes ntk ! x)))
                 [0..<length (nodes ntk)])"
    by blast
  have len: "length (on_modified ntk') = length (on_modified ntk) + fanin_refs ntk old_node"
    unfolding ev by (simp only: length_append length_all_events fanin_refs_def)
  have each: "\<forall>x < length (nodes ntk).
        children (nodes ntk' ! x) = map (redirect old_node new_signal) (children (nodes ntk ! x)) \<and>
        data0_h1 (nodes ntk' ! x) =
          (if x = old_node then 0
           else if x = new_signal then data0_h1 (nodes ntk ! x) + of_nat (refs ntk old_node)
           else data0_h1 (nodes ntk ! x)) \<and>
        length (node_events old_node new_signal x (children (nodes ntk ! x))) =
          count_list (children (nodes ntk ! x)) old_node \<and>
        (old_node \<in> set (children (nodes ntk ! x)) \<longrightarrow>
           hd (node_events old_node new_signal x (children (nodes ntk ! x))) =
             (x, children (nodes ntk ! x)))"
    using n by (simp add: length_node_events hd_node_events)
  show ?thesis using r l each os ev len by blast
qed


lemmas subst_eval = substitute_node_def substitute_in_node_def substitute_child_def
  substitute_output_def

text \<open>
  The claim as stated fails on the notifications: a node that refers to \<open>old_node\<close> twice
  is notified twice, and the second notification carries a list in which the first
  reference is already rewritten.
\<close>

theorem substitute_node_claim_counterexample:
  "(case create_node [2, 2] [False, False, False, True] (snd (create_pi (snd (create_pi klut_init)))) of
      Inl e \<Rightarrow> False
    | Inr (g, ntk) \<Rightarrow>
        g = 4 \<and> children (nodes ntk ! 4) = [2, 2] \<and> on_modified ntk = [] \<and>
        (case substitute_node 2 3 ntk of
           Inl e \<Rightarrow> False
         | Inr ntk' \<Rightarrow> on_modified ntk' = [(4, [2, 2]), (4, [3, 2])]))"
  by (simp add: ntk_eval subst_eval upt_rec)

theorem substitute_node_effect_witness:
  "(case create_node [2, 2] [False, False, False, True] (snd (create_pi (snd (create_pi klut_init)))) of
      Inl e \<Rightarrow> False
    | Inr (g, ntk) \<Rightarrow>
        2 < length (nodes ntk) \<and> 3 < length (nodes ntk) \<and>
        (case substitute_node 2 3 ntk of
           Inl e \<Rightarrow> False
         | Inr ntk' \<Rightarrow>
             children (nodes ntk' ! 4) = [3, 3] \<and> data0_h1 (nodes ntk' ! 3) = 2 \<and>
             data0_h1 (nodes ntk' ! 2) = 0 \<and> length (on_modified ntk') = 2))"
proof -
  obtain ntk where c: "create_node [2, 2] [False, False, False, True]
      (snd (create_pi (snd (create_pi klut_init)))) = Inr (4, ntk)"
    and l: "length (nodes ntk) = 5" and ch: "children (nodes ntk ! 4) = [2, 2]"
    and h: "data0_h1 (nodes ntk ! 3) = 0" and om: "on_modified ntk = []"
    and rf: "refs ntk 2 = 2" and fr: "fanin_refs ntk 2 = 2"
    by (simp add: ntk_eval refs_def fanin_refs_def)
  have a: "2 < length (nodes ntk)" and b: "3 < length (nodes ntk)" using l by simp_all
  from substitute_node_effect [OF a b] obtain ntk' where
    r: "substitute_node 2 3 ntk = Inr ntk'"
    and e: "\<forall>x < length (nodes ntk).
        children (nodes ntk' ! x) = map (redirect 2 3) (children (nodes ntk ! x)) \<and>
        data0_h1 (nodes ntk' ! x) =
          (if x = 2 then 0
           else if x = 3 then data0_h1 (nodes ntk ! x) + of_nat (refs ntk 2)
           else data0_h1 (nodes ntk ! x))"
    and n: "length (on_modified ntk') = length (on_modified ntk) + fanin_refs ntk 2"
    by blast
  have "children (nodes ntk' ! 4) = [3, 3]" using e [THEN spec, of 4] l ch by (simp add: redirect_def)
  moreover have "data0_h1 (nodes ntk' ! 3) = 2" using e [THEN spec, of 3] l h rf by simp
  moreover have "data0_h1 (nodes ntk' ! 2) = 0" using e [THEN spec, of 2] l by simp
  moreover have "length (on_modified ntk') = 2" using n om fr by simp
  ultimately show ?thesis unfolding c using a b r by simp
qed

section \<open>Fanout counters\<close>

lemma for_each_preserves:
  assumes step: "\<And>x s s'. f x s = Inr s' \<Longrightarrow> P s \<Longrightarrow> P s'"
  shows "for_each f xs s = Inr s' \<Longrightarrow> P s \<Longrightarrow> P s'"
proof (induction xs arbitrary: s)
  case Nil
  then show ?case by simp
next
  case (Cons x xs)
  from Cons.prems(1) obtain s1 where a: "f x s = Inr s1" and b: "for_each f xs s1 = Inr s'"
    by (cases "f x s") simp_all
  from Cons.IH [OF b step [OF a Cons.prems(2)]] show ?case .
qed

lemma fanin_refs_children:
  assumes e: "map children (nodes a) = map children (nodes b)"
  shows "fanin_refs a x = fanin_refs b x"
proof -
  have r: "fanin_refs t x = sum_list (map (\<lambda>cs. count_list cs x) (map children (nodes t)))" for t
    by (simp add: fanin_refs_def comp_def)
  show ?thesis unfolding r e ..
qed

lemma map_children_update:
  assumes "children n = children (ns ! i)"
  shows "map children (ns[i := n]) = map children ns"
proof (rule nth_equalityI)
  show "length (map children (ns[i := n])) = length (map children ns)" by simp
next
  fix x assume "x < length (map children (ns[i := n]))"
  then show "map children (ns[i := n]) ! x = map children ns ! x"
    using assms by (cases "x = i") simp_all
qed

lemma refs_beyond:
  assumes "refs_in_range ntk" and "length (nodes ntk) \<le> x"
  shows "refs ntk x = 0"
proof -
  have "count_list (children n) x = 0" if "n \<in> set (nodes ntk)" for n
    using assms that unfolding refs_in_range_def by (fastforce simp: count_list_0_iff)
  then have "fanin_refs ntk x = 0" by (simp add: fanin_refs_def)
  moreover have "count_list (outputs ntk) x = 0"
    using assms unfolding refs_in_range_def by (fastforce simp: count_list_0_iff)
  ultimately show ?thesis by (simp add: refs_def)
qed


lemma for_each_incr_fanout_spec:
  "for_each incr_fanout cs ntk = Inr ntk' \<Longrightarrow>
   (\<forall>c \<in> set cs. c < length (nodes ntk)) \<and> length (nodes ntk') = length (nodes ntk) \<and>
   (\<forall>x < length (nodes ntk). nodes ntk' ! x =
      (nodes ntk ! x)\<lparr>data0_h1 := data0_h1 (nodes ntk ! x) + of_nat (count_list cs x)\<rparr>) \<and>
   outputs ntk' = outputs ntk"
proof (induction cs arbitrary: ntk)
  case Nil
  then show ?case by simp
next
  case (Cons c cs)
  let ?n1 = "ntk\<lparr>nodes := (nodes ntk)
                  [c := (nodes ntk ! c)\<lparr>data0_h1 := data0_h1 (nodes ntk ! c) + 1\<rparr>]\<rparr>"
  have c: "c < length (nodes ntk)"
    using Cons.prems by (cases "c < length (nodes ntk)") (simp_all add: incr_fanout_def)
  then have "incr_fanout c ntk = Inr ?n1" by (simp add: incr_fanout_def)
  then have r: "for_each incr_fanout cs ?n1 = Inr ntk'"
    using Cons.prems by simp
  note ih = Cons.IH [OF r]
  have "\<forall>x < length (nodes ntk). nodes ntk' ! x =
      (nodes ntk ! x)\<lparr>data0_h1 := data0_h1 (nodes ntk ! x) + of_nat (count_list (c # cs) x)\<rparr>"
  proof (intro allI impI)
    fix x assume x: "x < length (nodes ntk)"
    then have "nodes ntk' ! x =
        (nodes ?n1 ! x)\<lparr>data0_h1 := data0_h1 (nodes ?n1 ! x) + of_nat (count_list cs x)\<rparr>"
      using ih by simp
    then show "nodes ntk' ! x =
      (nodes ntk ! x)\<lparr>data0_h1 := data0_h1 (nodes ntk ! x) + of_nat (count_list (c # cs) x)\<rparr>"
      using x by (cases "x = c") (simp_all add: add.assoc add.commute)
  qed
  then show ?case using ih c by simp
qed

lemma counts_inv_init: "counts_inv klut_init"
  by (simp add: counts_inv_def refs_in_range_def fanout_counts_def klut_init_def Let_def
      empty_node_def refs_def fanin_refs_def less_Suc_eq numeral_2_eq_2)

lemma counts_inv_create_pi:
  assumes "counts_inv ntk"
  shows "counts_inv (snd (create_pi ntk))"
proof -
  let ?n = "ntk\<lparr>nodes := nodes ntk @ [empty_node\<lparr>data1_h1 := 2\<rparr>],
               inputs := inputs ntk @ [length (nodes ntk)]\<rparr>"
  have rr: "refs_in_range ntk" and fc: "fanout_counts ntk" using assms by (simp_all add: counts_inv_def)
  have r: "refs ?n x = refs ntk x" for x
    by (simp add: refs_def fanin_refs_def empty_node_def)
  have "refs_in_range ?n"
    using rr unfolding refs_in_range_def by (auto simp: empty_node_def less_Suc_eq)
  moreover have "fanout_counts ?n"
    unfolding fanout_counts_def
  proof (intro allI impI)
    fix x assume "x < length (nodes ?n)"
    then consider "x < length (nodes ntk)" | "x = length (nodes ntk)" by fastforce
    then show "data0_h1 (nodes ?n ! x) = of_nat (refs ?n x)"
    proof cases
      case 1
      then have "data0_h1 (nodes ntk ! x) = of_nat (refs ntk x)" using fc by (simp add: fanout_counts_def)
      then show ?thesis unfolding r using 1 by (simp add: nth_append)
    next
      case 2
      then have "refs ntk x = 0" using refs_beyond [OF rr, of x] by simp
      then show ?thesis unfolding r using 2 by (simp add: empty_node_def)
    qed
  qed
  ultimately show ?thesis by (simp add: counts_inv_def create_pi_def Let_def)
qed

lemma counts_inv_create_po:
  assumes inv: "counts_inv ntk" and run: "create_po f ntk = Inr ntk'"
  shows "counts_inv ntk'"
proof -
  have rr: "refs_in_range ntk" and fc: "fanout_counts ntk" using inv by (simp_all add: counts_inv_def)
  have f: "f < length (nodes ntk)"
    using run by (cases "f < length (nodes ntk)") (simp_all add: create_po_def incr_fanout_def)
  let ?ns = "(nodes ntk)[f := (nodes ntk ! f)\<lparr>data0_h1 := data0_h1 (nodes ntk ! f) + 1\<rparr>]"
  have e: "ntk' = ntk\<lparr>nodes := ?ns, outputs := outputs ntk @ [f]\<rparr>"
    using run f by (simp add: create_po_def incr_fanout_def)
  have mc: "map children ?ns = map children (nodes ntk)"
    by (rule map_children_update) simp
  have fr: "fanin_refs ntk' x = fanin_refs ntk x" for x
    by (rule fanin_refs_children) (simp add: e mc)
  have r: "refs ntk' x = refs ntk x + (if x = f then 1 else 0)" for x
    by (simp add: refs_def fr) (simp add: e)
  have "refs_in_range ntk'"
    unfolding refs_in_range_def
  proof (intro conjI ballI)
    fix n c assume n: "n \<in> set (nodes ntk')" and c: "c \<in> set (children n)"
    have "children n \<in> set (map children (nodes ntk'))" using n by simp
    also have "map children (nodes ntk') = map children (nodes ntk)" using mc by (simp add: e)
    finally obtain m where "m \<in> set (nodes ntk)" "children m = children n" by auto
    then show "c < length (nodes ntk')" using rr c unfolding refs_in_range_def by (auto simp: e)
  next
    fix g assume "g \<in> set (outputs ntk')"
    then show "g < length (nodes ntk')" using rr f unfolding refs_in_range_def by (auto simp: e)
  qed
  moreover have "fanout_counts ntk'"
    unfolding fanout_counts_def
  proof (intro allI impI)
    fix x assume "x < length (nodes ntk')"
    then have x: "x < length (nodes ntk)" by (simp add: e)
    then have "data0_h1 (nodes ntk ! x) = of_nat (refs ntk x)" using fc by (simp add: fanout_counts_def)
    then show "data0_h1 (nodes ntk' ! x) = of_nat (refs ntk' x)"
      using x by (cases "x = f") (simp_all add: r, simp_all add: e)
  qed
  ultimately show ?thesis by (simp add: counts_inv_def)
qed


lemma create_node_literal_miss:
  assumes run: "create_node_literal cs l ntk = Inr (s, ntk')" and miss: "hash ntk (cs, l) = None"
  shows "(\<forall>c \<in> set cs. c < Suc (length (nodes ntk))) \<and>
     length (nodes ntk') = Suc (length (nodes ntk)) \<and> outputs ntk' = outputs ntk \<and>
     map children (nodes ntk') = map children (nodes ntk) @ [cs] \<and>
     (\<forall>x < Suc (length (nodes ntk)). data0_h1 (nodes ntk' ! x) =
        (if x < length (nodes ntk) then data0_h1 (nodes ntk ! x) else 0) + of_nat (count_list cs x))"
proof -
  let ?len = "length (nodes ntk)"
  let ?node = "empty_node\<lparr>children := cs, data1_h1 := l\<rparr>"
  let ?ntk1 = "ntk\<lparr>nodes := nodes ntk @ [?node], hash := (hash ntk)((cs, l) \<mapsto> ?len)\<rparr>"
  have u: "(case for_each incr_fanout cs ?ntk1 of
        Inl e \<Rightarrow> Inl e
      | Inr ntk2 \<Rightarrow>
          (case set_value ?len 0 ntk2 of
             Inl e \<Rightarrow> Inl e
           | Inr ntk3 \<Rightarrow> Inr (?len, ntk3\<lparr>on_add := on_add ntk3 @ [?len]\<rparr>)))
      = Inr (s, ntk')"
    using run miss by (simp add: create_node_literal_def Let_def)
  obtain ntk2 where a: "for_each incr_fanout cs ?ntk1 = Inr ntk2"
    using u by (cases "for_each incr_fanout cs ?ntk1") simp_all
  obtain ntk3 where b: "set_value ?len 0 ntk2 = Inr ntk3"
    using u a by (cases "set_value ?len 0 ntk2") simp_all
  have c: "ntk' = ntk3\<lparr>on_add := on_add ntk3 @ [?len]\<rparr>" using u a b by auto
  note sp = for_each_incr_fanout_spec [OF a]
  have l2: "length (nodes ntk2) = Suc ?len" using sp by simp
  have n3: "nodes ntk3 = (nodes ntk2)[?len := (nodes ntk2 ! ?len)\<lparr>data0_h2 := 0\<rparr>]"
    and o3: "outputs ntk3 = outputs ntk2"
    using b l2 by (auto simp: set_value_def split: if_splits)
  have nth: "children (nodes ntk' ! x) = children ((nodes ntk @ [?node]) ! x) \<and>
      data0_h1 (nodes ntk' ! x) = data0_h1 ((nodes ntk @ [?node]) ! x) + of_nat (count_list cs x)"
    if x: "x < Suc ?len" for x
  proof -
    have "nodes ntk2 ! x = ((nodes ntk @ [?node]) ! x)
        \<lparr>data0_h1 := data0_h1 ((nodes ntk @ [?node]) ! x) + of_nat (count_list cs x)\<rparr>"
      using sp x by simp
    then show ?thesis using x l2 by (cases "x = ?len") (simp_all add: c n3)
  qed
  have mc: "map children (nodes ntk') = map children (nodes ntk) @ [cs]"
  proof (rule nth_equalityI)
    show "length (map children (nodes ntk')) = length (map children (nodes ntk) @ [cs])"
      using l2 by (simp add: c n3)
  next
    fix x assume "x < length (map children (nodes ntk'))"
    then have x: "x < Suc ?len" using l2 by (simp add: c n3)
    then have "map children (nodes ntk') ! x = children ((nodes ntk @ [?node]) ! x)"
      using nth [OF x] l2 by (simp add: c n3)
    then show "map children (nodes ntk') ! x = (map children (nodes ntk) @ [cs]) ! x"
      using x by (cases "x = ?len") (simp_all add: nth_append)
  qed
  have h: "\<forall>x < Suc ?len. data0_h1 (nodes ntk' ! x) =
        (if x < ?len then data0_h1 (nodes ntk ! x) else 0) + of_nat (count_list cs x)"
  proof (intro allI impI)
    fix x assume x: "x < Suc ?len"
    show "data0_h1 (nodes ntk' ! x) =
        (if x < ?len then data0_h1 (nodes ntk ! x) else 0) + of_nat (count_list cs x)"
      using nth [OF x] x by (cases "x = ?len") (simp_all add: nth_append empty_node_def)
  qed
  show ?thesis using sp l2 mc h by (simp add: c n3 o3)
qed

lemma counts_inv_create_node_literal:
  assumes inv: "counts_inv ntk" and run: "create_node_literal cs l ntk = Inr (s, ntk')"
  shows "counts_inv ntk'"
proof (cases "hash ntk (cs, l)")
  case (Some i)
  then show ?thesis using inv run by (simp add: create_node_literal_def)
next
  case None
  let ?len = "length (nodes ntk)"
  have rr: "refs_in_range ntk" and fc: "fanout_counts ntk" using inv by (simp_all add: counts_inv_def)
  note m = create_node_literal_miss [OF run None]
  have mc: "map children (nodes ntk') = map children (nodes ntk) @ [cs]" using m by simp
  have fr: "fanin_refs ntk' x = fanin_refs ntk x + count_list cs x" for x
  proof -
    have r: "fanin_refs t x = sum_list (map (\<lambda>cs. count_list cs x) (map children (nodes t)))" for t
      by (simp add: fanin_refs_def comp_def)
    show ?thesis unfolding r mc by simp
  qed
  have r: "refs ntk' x = refs ntk x + count_list cs x" for x
    using m by (simp add: refs_def fr)
  have "refs_in_range ntk'"
    unfolding refs_in_range_def
  proof (intro conjI ballI)
    fix n c assume n: "n \<in> set (nodes ntk')" and c: "c \<in> set (children n)"
    have "children n \<in> set (map children (nodes ntk'))" using n by simp
    then have "children n \<in> set (map children (nodes ntk)) \<or> children n = cs"
      unfolding mc by auto
    then show "c < length (nodes ntk')"
    proof
      assume "children n \<in> set (map children (nodes ntk))"
      then obtain k where "k \<in> set (nodes ntk)" "children k = children n" by auto
      then have "c < ?len" using rr c unfolding refs_in_range_def by auto
      then show ?thesis using m by simp
    next
      assume "children n = cs"
      then show ?thesis using m c by simp
    qed
  next
    fix g assume "g \<in> set (outputs ntk')"
    then have "g < ?len" using rr m unfolding refs_in_range_def by simp
    then show "g < length (nodes ntk')" using m by simp
  qed
  moreover have "fanout_counts ntk'"
    unfolding fanout_counts_def
  proof (intro allI impI)
    fix x assume "x < length (nodes ntk')"
    then have x: "x < Suc ?len" using m by simp
    have h: "data0_h1 (nodes ntk' ! x) =
        (if x < ?len then data0_h1 (nodes ntk ! x) else 0) + of_nat (count_list cs x)"
      using m x by blast
    show "data0_h1 (nodes ntk' ! x) = of_nat (refs ntk' x)"
    proof (cases "x < ?len")
      case True
      then have "data0_h1 (nodes ntk ! x) = of_nat (refs ntk x)" using fc by (simp add: fanout_counts_def)
      then show ?thesis unfolding h r using True by simp
    next
      case False
      then have "refs ntk x = 0" using refs_beyond [OF rr, of x] by simp
      then show ?thesis unfolding h r using False by simp
    qed
  qed
  ultimately show ?thesis by (simp add: counts_inv_def)
qed

lemma counts_inv_cache: "counts_inv (ntk\<lparr>cache := c\<rparr>) = counts_inv ntk"
  by (simp add: counts_inv_def refs_in_range_def fanout_counts_def refs_def fanin_refs_def)

lemma counts_inv_create_node:
  assumes inv: "counts_inv ntk" and run: "create_node cs f ntk = Inr (s, ntk')"
  shows "counts_inv ntk'"
proof -
  obtain l c where ins: "cache_insert f (cache ntk) = (l, c)" by (cases "cache_insert f (cache ntk)")
  then have r: "create_node_literal cs l (ntk\<lparr>cache := c\<rparr>) = Inr (s, ntk')"
    using run by (simp add: create_node_def)
  show ?thesis
    by (rule counts_inv_create_node_literal [OF _ r]) (simp add: counts_inv_cache inv)
qed


lemma substitute_child_length:
  "substitute_child o' s i j ntk = Inr t \<Longrightarrow> length (nodes t) = length (nodes ntk)"
  by (auto simp: substitute_child_def incr_fanout_def Let_def split: if_splits)

lemma substitute_in_node_length:
  assumes "substitute_in_node o' s i ntk = Inr t"
  shows "length (nodes t) = length (nodes ntk)"
proof -
  have r: "for_each (substitute_child o' s i) [0..<length (children (nodes ntk ! i))] ntk = Inr t"
    using assms by (simp add: substitute_in_node_def split: if_splits)
  show ?thesis
    by (rule for_each_preserves [where P = "\<lambda>u. length (nodes u) = length (nodes ntk)", OF _ r])
       (simp_all add: substitute_child_length)
qed

lemma substitute_output_length:
  "substitute_output o' s k ntk = Inr t \<Longrightarrow> length (nodes t) = length (nodes ntk)"
  by (auto simp: substitute_output_def incr_fanout_def split: if_splits)

lemma substitute_node_old_in_range:
  assumes "substitute_node o' s ntk = Inr ntk'"
  shows "o' < length (nodes ntk)"
proof -
  obtain t1 where a: "for_each (substitute_in_node o' s) [0..<length (nodes ntk)] ntk = Inr t1"
    using assms
    by (cases "for_each (substitute_in_node o' s) [0..<length (nodes ntk)] ntk")
       (simp_all add: substitute_node_def)
  obtain t2 where b: "for_each (substitute_output o' s) [0..<length (outputs t1)] t1 = Inr t2"
    using assms a
    by (cases "for_each (substitute_output o' s) [0..<length (outputs t1)] t1")
       (simp_all add: substitute_node_def)
  have l1: "length (nodes t1) = length (nodes ntk)"
    by (rule for_each_preserves [where P = "\<lambda>u. length (nodes u) = length (nodes ntk)", OF _ a])
       (simp_all add: substitute_in_node_length)
  have l2: "length (nodes t2) = length (nodes ntk)"
    by (rule for_each_preserves [where P = "\<lambda>u. length (nodes u) = length (nodes ntk)", OF _ b])
       (simp_all add: substitute_output_length l1)
  show ?thesis using assms a b l2 by (simp add: substitute_node_def split: if_splits)
qed

lemma count_list_redirect:
  "o' \<noteq> s \<Longrightarrow> count_list (map (redirect o' s) cs) x =
     (if x = o' then 0 else if x = s then count_list cs s + count_list cs o' else count_list cs x)"
  by (induction cs) (auto simp: redirect_def)

lemma sum_list_count_redirect:
  assumes "o' \<noteq> s"
  shows "sum_list (map (\<lambda>cs. count_list (map (redirect o' s) cs) x) css) =
     (if x = o' then 0
      else if x = s then sum_list (map (\<lambda>cs. count_list cs s) css) +
                         sum_list (map (\<lambda>cs. count_list cs o') css)
      else sum_list (map (\<lambda>cs. count_list cs x) css))"
  by (induction css) (simp_all add: count_list_redirect [OF assms])

lemma counts_inv_substitute_in_range:
  assumes inv: "counts_inv ntk" and run: "substitute_node o' s ntk = Inr ntk'"
    and ne: "o' \<noteq> s" and s: "s < length (nodes ntk)"
  shows "counts_inv ntk'"
proof -
  let ?n = "length (nodes ntk)"
  have rr: "refs_in_range ntk" and fc: "fanout_counts ntk" using inv by (simp_all add: counts_inv_def)
  have o: "o' < ?n" using substitute_node_old_in_range [OF run] .
  from substitute_node_closed [OF o s] run have
    l: "length (nodes ntk') = ?n"
    and n: "\<forall>x < ?n. nodes ntk' ! x =
        (nodes ntk ! x)
          \<lparr>children := map (redirect o' s) (children (nodes ntk ! x)),
           data0_h1 := (if x = o' then 0
                        else data0_h1 (nodes ntk ! x) + (if x = s then of_nat (refs ntk o') else 0))\<rparr>"
    and os: "outputs ntk' = map (redirect o' s) (outputs ntk)"
    by auto
  have mc: "map children (nodes ntk') = map (map (redirect o' s)) (map children (nodes ntk))"
    by (rule nth_equalityI) (simp_all add: l n)
  have fr: "fanin_refs t x = sum_list (map (\<lambda>cs. count_list cs x) (map children (nodes t)))" for t x
    by (simp add: fanin_refs_def comp_def)
  have fr': "fanin_refs ntk' x =
      (if x = o' then 0 else if x = s then fanin_refs ntk s + fanin_refs ntk o' else fanin_refs ntk x)" for x
    unfolding fr mc using sum_list_count_redirect [OF ne, of x "map children (nodes ntk)"]
    by (simp add: comp_def)
  have r': "refs ntk' x =
      (if x = o' then 0 else if x = s then refs ntk s + refs ntk o' else refs ntk x)" for x
    unfolding refs_def fr' os by (simp add: count_list_redirect [OF ne])
  have "refs_in_range ntk'"
    unfolding refs_in_range_def
  proof (intro conjI ballI)
    fix k c assume "k \<in> set (nodes ntk')" and c: "c \<in> set (children k)"
    then obtain x where x: "x < ?n" and k: "k = nodes ntk' ! x"
      using l by (auto simp: in_set_conv_nth)
    have "c \<in> redirect o' s ` set (children (nodes ntk ! x))" using c k n x by simp
    then obtain c0 where c0: "c0 \<in> set (children (nodes ntk ! x))" and cc: "c = redirect o' s c0"
      by blast
    have "c0 < ?n" using rr c0 x unfolding refs_in_range_def by (meson nth_mem)
    then show "c < length (nodes ntk')" using cc s l by (simp add: redirect_def)
  next
    fix g assume "g \<in> set (outputs ntk')"
    then obtain g0 where "g0 \<in> set (outputs ntk)" and gg: "g = redirect o' s g0"
      unfolding os by auto
    then have "g0 < ?n" using rr unfolding refs_in_range_def by blast
    then show "g < length (nodes ntk')" using gg s l by (simp add: redirect_def)
  qed
  moreover have "fanout_counts ntk'"
    unfolding fanout_counts_def
  proof (intro allI impI)
    fix x assume "x < length (nodes ntk')"
    then have x: "x < ?n" using l by simp
    have h: "data0_h1 (nodes ntk ! x) = of_nat (refs ntk x)" using fc x by (simp add: fanout_counts_def)
    show "data0_h1 (nodes ntk' ! x) = of_nat (refs ntk' x)"
      unfolding r' using n x h by simp
  qed
  ultimately show ?thesis by (simp add: counts_inv_def)
qed


lemma nth_update_any: "xs[i := v] ! j = (if i = j \<and> i < length xs then v else xs ! j)"
  by (cases "i < length xs") (simp_all add: nth_list_update list_update_beyond)

lemma for_each_unchanged:
  assumes step: "\<And>x t. f x s0 = Inr t \<Longrightarrow> t = s0 \<and> Q x"
  shows "for_each f xs s0 = Inr t \<Longrightarrow> t = s0 \<and> (\<forall>x \<in> set xs. Q x)"
proof (induction xs)
  case Nil
  then show ?case by simp
next
  case (Cons x xs)
  from Cons.prems obtain s1 where a: "f x s0 = Inr s1" and b: "for_each f xs s1 = Inr t"
    by (cases "f x s0") simp_all
  from step [OF a] have "s1 = s0" and "Q x" by simp_all
  then show ?case using Cons.IH b by simp
qed

lemma substitute_node_beyond:
  assumes run: "substitute_node o' s ntk = Inr ntk'" and s: "length (nodes ntk) \<le> s"
  shows "refs ntk o' = 0 \<and> o' < length (nodes ntk) \<and>
     ntk' = ntk\<lparr>nodes := (nodes ntk)[o' := (nodes ntk ! o')\<lparr>data0_h1 := 0\<rparr>]\<rparr>"
proof -
  obtain t1 where a: "for_each (substitute_in_node o' s) [0..<length (nodes ntk)] ntk = Inr t1"
    using run
    by (cases "for_each (substitute_in_node o' s) [0..<length (nodes ntk)] ntk")
       (simp_all add: substitute_node_def)
  have child: "t = ntk \<and> children (nodes ntk ! i) ! j \<noteq> o'"
    if "substitute_child o' s i j ntk = Inr t" for i j t
    using that s by (auto simp: substitute_child_def incr_fanout_def Let_def split: if_splits)
  have node: "t = ntk \<and> o' \<notin> set (children (nodes ntk ! i))"
    if "substitute_in_node o' s i ntk = Inr t" for i t
  proof -
    have r: "for_each (substitute_child o' s i) [0..<length (children (nodes ntk ! i))] ntk = Inr t"
      using that by (simp add: substitute_in_node_def split: if_splits)
    from for_each_unchanged [of "substitute_child o' s i" ntk
        "\<lambda>j. children (nodes ntk ! i) ! j \<noteq> o'", OF child r]
    show ?thesis by (auto simp: in_set_conv_nth)
  qed
  from for_each_unchanged [of "substitute_in_node o' s" ntk
      "\<lambda>i. o' \<notin> set (children (nodes ntk ! i))", OF node a]
  have t1: "t1 = ntk" and nc: "\<forall>i < length (nodes ntk). o' \<notin> set (children (nodes ntk ! i))"
    by auto
  obtain t2 where b: "for_each (substitute_output o' s) [0..<length (outputs ntk)] ntk = Inr t2"
    using run a t1
    by (cases "for_each (substitute_output o' s) [0..<length (outputs ntk)] ntk")
       (simp_all add: substitute_node_def)
  have out: "t = ntk \<and> outputs ntk ! k \<noteq> o'"
    if "substitute_output o' s k ntk = Inr t" for k t
    using that s by (auto simp: substitute_output_def incr_fanout_def split: if_splits)
  from for_each_unchanged [of "substitute_output o' s" ntk "\<lambda>k. outputs ntk ! k \<noteq> o'", OF out b]
  have t2: "t2 = ntk" and no: "\<forall>k < length (outputs ntk). outputs ntk ! k \<noteq> o'" by auto
  have "count_list (children n) o' = 0" if "n \<in> set (nodes ntk)" for n
    using that nc by (auto simp: in_set_conv_nth count_list_0_iff)
  then have "fanin_refs ntk o' = 0" by (simp add: fanin_refs_def)
  moreover have "count_list (outputs ntk) o' = 0"
    using no by (auto simp: in_set_conv_nth count_list_0_iff)
  ultimately have "refs ntk o' = 0" by (simp add: refs_def)
  then show ?thesis
    using run a b t1 t2 by (simp add: substitute_node_def split: if_splits)
qed

lemma counts_inv_data:
  assumes inv: "counts_inv ntk" and l: "length ns = length (nodes ntk)"
    and c: "\<forall>x < length ns. children (ns ! x) = children (nodes ntk ! x)"
    and h: "\<forall>x < length ns. data0_h1 (ns ! x) = of_nat (refs ntk x)"
  shows "counts_inv (ntk\<lparr>nodes := ns\<rparr>)"
proof -
  have mc: "map children ns = map children (nodes ntk)"
    by (rule nth_equalityI) (simp_all add: l c [unfolded l])
  have fr: "fanin_refs (ntk\<lparr>nodes := ns\<rparr>) x = fanin_refs ntk x" for x
    by (rule fanin_refs_children) (simp add: mc)
  have r: "refs (ntk\<lparr>nodes := ns\<rparr>) x = refs ntk x" for x by (simp add: refs_def fr)
  have "refs_in_range (ntk\<lparr>nodes := ns\<rparr>)"
    unfolding refs_in_range_def
  proof (intro conjI ballI)
    fix n k assume n: "n \<in> set (nodes (ntk\<lparr>nodes := ns\<rparr>))" and k: "k \<in> set (children n)"
    have "children n \<in> set (map children ns)" using n by simp
    then obtain m where "m \<in> set (nodes ntk)" "children m = children n" unfolding mc by auto
    then show "k < length (nodes (ntk\<lparr>nodes := ns\<rparr>))"
      using inv k l unfolding counts_inv_def refs_in_range_def by auto
  next
    fix g assume "g \<in> set (outputs (ntk\<lparr>nodes := ns\<rparr>))"
    then show "g < length (nodes (ntk\<lparr>nodes := ns\<rparr>))"
      using inv l unfolding counts_inv_def refs_in_range_def by simp
  qed
  moreover have "fanout_counts (ntk\<lparr>nodes := ns\<rparr>)"
    unfolding fanout_counts_def r using h by simp
  ultimately show ?thesis by (simp add: counts_inv_def)
qed

lemma counts_inv_substitute:
  assumes inv: "counts_inv ntk" and run: "substitute_node o' s ntk = Inr ntk'" and ne: "o' \<noteq> s"
  shows "counts_inv ntk'"
proof (cases "s < length (nodes ntk)")
  case True
  then show ?thesis using counts_inv_substitute_in_range [OF inv run ne] by simp
next
  case False
  then have "length (nodes ntk) \<le> s" by simp
  from substitute_node_beyond [OF run this] have
    z: "refs ntk o' = 0" and o: "o' < length (nodes ntk)"
    and e: "ntk' = ntk\<lparr>nodes := (nodes ntk)[o' := (nodes ntk ! o')\<lparr>data0_h1 := 0\<rparr>]\<rparr>"
    by simp_all
  have fc: "fanout_counts ntk" using inv by (simp add: counts_inv_def)
  show ?thesis
    unfolding e
  proof (rule counts_inv_data [OF inv])
    show "length ((nodes ntk)[o' := (nodes ntk ! o')\<lparr>data0_h1 := 0\<rparr>]) = length (nodes ntk)" by simp
    show "\<forall>x < length ((nodes ntk)[o' := (nodes ntk ! o')\<lparr>data0_h1 := 0\<rparr>]).
        children ((nodes ntk)[o' := (nodes ntk ! o')\<lparr>data0_h1 := 0\<rparr>] ! x) = children (nodes ntk ! x)"
      by (simp add: nth_update_any)
    show "\<forall>x < length ((nodes ntk)[o' := (nodes ntk ! o')\<lparr>data0_h1 := 0\<rparr>]).
        data0_h1 ((nodes ntk)[o' := (nodes ntk ! o')\<lparr>data0_h1 := 0\<rparr>] ! x) = of_nat (refs ntk x)"
      using fc z by (simp add: nth_update_any fanout_counts_def)
  qed
qed

lemma counts_inv_scratch:
  assumes inv: "counts_inv ntk" and l: "length ns = length (nodes ntk)"
    and c: "\<forall>x < length ns. children (ns ! x) = children (nodes ntk ! x) \<and>
        data0_h1 (ns ! x) = data0_h1 (nodes ntk ! x)"
  shows "counts_inv (ntk\<lparr>nodes := ns\<rparr>)"
proof (rule counts_inv_data [OF inv l])
  show "\<forall>x < length ns. children (ns ! x) = children (nodes ntk ! x)" using c by simp
  show "\<forall>x < length ns. data0_h1 (ns ! x) = of_nat (refs ntk x)"
    using c inv l by (simp add: counts_inv_def fanout_counts_def)
qed

lemma counts_inv_step:
  assumes inv: "counts_inv ntk" and run: "klut_step x ntk = Inr ntk'"
    and ok: "no_self_substitution [x]"
  shows "counts_inv ntk'"
proof (cases x)
  case Create_pi
  then show ?thesis using inv run counts_inv_create_pi by auto
next
  case (Create_node cs f)
  then obtain s where "create_node cs f ntk = Inr (s, ntk')"
    using run by (cases "create_node cs f ntk") auto
  then show ?thesis using counts_inv_create_node [OF inv] by blast
next
  case (Create_po f)
  then show ?thesis using inv run counts_inv_create_po by auto
next
  case (Substitute_node o' s)
  then show ?thesis using inv run ok counts_inv_substitute by auto
next
  case Clear_values
  have "counts_inv (ntk\<lparr>nodes := map (\<lambda>n. n\<lparr>data0_h2 := 0\<rparr>) (nodes ntk)\<rparr>)"
    by (rule counts_inv_scratch [OF inv]) simp_all
  then show ?thesis using Clear_values run by (auto simp: clear_values_def)
next
  case (Set_value n v)
  have "counts_inv (ntk\<lparr>nodes := (nodes ntk)[n := (nodes ntk ! n)\<lparr>data0_h2 := v\<rparr>]\<rparr>)"
    by (rule counts_inv_scratch [OF inv]) (simp_all add: nth_update_any)
  then show ?thesis using Set_value run by (auto simp: set_value_def split: if_splits)
next
  case (Incr_value n)
  have "counts_inv (ntk\<lparr>nodes := (nodes ntk)
      [n := (nodes ntk ! n)\<lparr>data0_h2 := data0_h2 (nodes ntk ! n) + 1\<rparr>]\<rparr>)"
    by (rule counts_inv_scratch [OF inv]) (simp_all add: nth_update_any)
  then show ?thesis using Incr_value run by (auto simp: incr_value_def split: if_splits)
next
  case (Decr_value n)
  have "counts_inv (ntk\<lparr>nodes := (nodes ntk)
      [n := (nodes ntk ! n)\<lparr>data0_h2 := data0_h2 (nodes ntk ! n) - 1\<rparr>]\<rparr>)"
    by (rule counts_inv_scratch [OF inv]) (simp_all add: nth_update_any)
  then show ?thesis using Decr_value run by (auto simp: decr_value_def split: if_splits)
qed

lemma no_self_substitution_Cons:
  "no_self_substitution (x # xs) = (no_self_substitution [x] \<and> no_self_substitution xs)"
  by (cases x) simp_all

lemma counts_inv_run:
  "counts_inv ntk \<Longrightarrow> no_self_substitution ops \<Longrightarrow> for_each klut_step ops ntk = Inr ntk' \<Longrightarrow>
   counts_inv ntk'"
proof (induction ops arbitrary: ntk)
  case Nil
  then show ?case by simp
next
  case (Cons x xs)
  from Cons.prems(3) obtain t where a: "klut_step x ntk = Inr t" and b: "for_each klut_step xs t = Inr ntk'"
    by (cases "klut_step x ntk") simp_all
  have ok: "no_self_substitution [x]" "no_self_substitution xs"
    using Cons.prems(2) no_self_substitution_Cons [of x xs] by simp_all
  from Cons.IH [OF counts_inv_step [OF Cons.prems(1) a ok(1)] ok(2) b] show ?case .
qed


lemma referenced_refs:
  assumes "x \<in> set (outputs ntk) \<or> (\<exists>n \<in> set (nodes ntk). x \<in> set (children n))"
  shows "1 \<le> refs ntk x"
  using assms
proof
  assume "x \<in> set (outputs ntk)"
  then have "count_list (outputs ntk) x \<noteq> 0" by (simp add: count_list_0_iff)
  then show ?thesis by (simp add: refs_def)
next
  assume "\<exists>n \<in> set (nodes ntk). x \<in> set (children n)"
  then obtain n where n: "n \<in> set (nodes ntk)" and x: "x \<in> set (children n)" by blast
  have "count_list (children n) x \<noteq> 0" using x by (simp add: count_list_0_iff)
  moreover have "count_list (children n) x \<in> set (map (\<lambda>n. count_list (children n) x) (nodes ntk))"
    using n by simp
  then have "count_list (children n) x \<le> fanin_refs ntk x"
    unfolding fanin_refs_def by (simp add: member_le_sum_list)
  ultimately show ?thesis by (simp add: refs_def)
qed

text \<open>
  C8, as amended: in every network built from the empty network by a sequence of
  \<open>create_pi\<close>, \<open>create_node\<close>, \<open>create_po\<close> and \<open>substitute_node\<close> calls (and
  accesses to the scratch value) in which no node is substituted by itself, every
  reference points to a node of the network and every node's fanout counter equals,
  modulo \<open>2^32\<close>, the number of fanin references to it across all children lists plus the
  number of primary outputs referencing it. Below \<open>2^32\<close> references the counter is that
  number, and then every node that is a primary output or a fanin of a node, hence every
  node reachable from a primary output, has a fanout count of at least 1.
\<close>

theorem fanout_counter_invariant:
  assumes "no_self_substitution ops" and "klut_run ops = Inr ntk"
  shows "refs_in_range ntk \<and>
     (\<forall>x < length (nodes ntk).
        data0_h1 (nodes ntk ! x) = of_nat (refs ntk x) \<and>
        (refs ntk x < 2 ^ 32 \<longrightarrow>
           unat (data0_h1 (nodes ntk ! x)) = refs ntk x \<and>
           (x \<in> set (outputs ntk) \<or> (\<exists>n \<in> set (nodes ntk). x \<in> set (children n)) \<longrightarrow>
              1 \<le> unat (data0_h1 (nodes ntk ! x)))))"
proof -
  have inv: "counts_inv ntk"
    using counts_inv_run [OF counts_inv_init assms(1)] assms(2) by (simp add: klut_run_def)
  have "data0_h1 (nodes ntk ! x) = of_nat (refs ntk x) \<and>
        (refs ntk x < 2 ^ 32 \<longrightarrow>
           unat (data0_h1 (nodes ntk ! x)) = refs ntk x \<and>
           (x \<in> set (outputs ntk) \<or> (\<exists>n \<in> set (nodes ntk). x \<in> set (children n)) \<longrightarrow>
              1 \<le> unat (data0_h1 (nodes ntk ! x))))"
    if x: "x < length (nodes ntk)" for x
  proof -
    have h: "data0_h1 (nodes ntk ! x) = of_nat (refs ntk x)"
      using inv x by (simp add: counts_inv_def fanout_counts_def)
    have u: "unat (data0_h1 (nodes ntk ! x)) = refs ntk x" if "refs ntk x < 2 ^ 32"
      unfolding h using that by (simp add: unat_of_nat)
    show ?thesis using h u referenced_refs [of x ntk] by auto
  qed
  moreover have "refs_in_range ntk" using inv by (simp add: counts_inv_def)
  ultimately show ?thesis by blast
qed

text \<open>
  The claim as stated fails: substituting a node by itself keeps every reference to it
  and sets its counter to zero.
\<close>

theorem fanout_counter_claim_counterexample:
  "(case klut_run [Create_pi, Create_po 2, Substitute_node 2 2] of
      Inl e \<Rightarrow> False
    | Inr ntk \<Rightarrow> outputs ntk = [2] \<and> refs ntk 2 = 1 \<and> data0_h1 (nodes ntk ! 2) = 0)"
  by (simp add: klut_run_def ntk_eval subst_eval refs_def fanin_refs_def upt_rec)

theorem fanout_counter_invariant_witness:
  "no_self_substitution
     [Create_pi, Create_pi, Create_node [2, 3] [False, False, False, True], Create_po 4,
      Substitute_node 2 3] \<and>
   (case klut_run
      [Create_pi, Create_pi, Create_node [2, 3] [False, False, False, True], Create_po 4,
       Substitute_node 2 3] of
      Inl e \<Rightarrow> False
    | Inr ntk \<Rightarrow>
        refs ntk 3 = 2 \<and> unat (data0_h1 (nodes ntk ! 3)) = 2 \<and>
        refs ntk 4 = 1 \<and> 1 \<le> unat (data0_h1 (nodes ntk ! 4)))"
proof -
  let ?ops = "[Create_pi, Create_pi, Create_node [2, 3] [False, False, False, True], Create_po 4,
      Substitute_node 2 3]"
  have ok: "no_self_substitution ?ops" by simp
  obtain ntk where r: "klut_run ?ops = Inr ntk" and l: "length (nodes ntk) = 5"
    and r3: "refs ntk 3 = 2" and r4: "refs ntk 4 = 1" and o: "outputs ntk = [4]"
    by (simp add: klut_run_def ntk_eval subst_eval refs_def fanin_refs_def upt_rec)
  from fanout_counter_invariant [OF ok r] have
    a: "\<forall>x < length (nodes ntk).
        data0_h1 (nodes ntk ! x) = of_nat (refs ntk x) \<and>
        (refs ntk x < 2 ^ 32 \<longrightarrow>
           unat (data0_h1 (nodes ntk ! x)) = refs ntk x \<and>
           (x \<in> set (outputs ntk) \<or> (\<exists>n \<in> set (nodes ntk). x \<in> set (children n)) \<longrightarrow>
              1 \<le> unat (data0_h1 (nodes ntk ! x))))"
    by (rule conjunct2)
  have "unat (data0_h1 (nodes ntk ! 3)) = 2" using a [THEN spec, of 3] l r3 by simp
  moreover have "1 \<le> unat (data0_h1 (nodes ntk ! 4))" using a [THEN spec, of 4] l r4 o by simp
  ultimately show ?thesis unfolding r using ok r3 r4 by simp
qed

section \<open>Reconvergence-driven cut\<close>

declare compute_cut_recur.simps [simp del]




lemma foreach_fanin_in_range:
  "n < length (nodes ntk) \<Longrightarrow> foreach_fanin ntk n = Inr (fanins ntk n)"
  by (auto simp: foreach_fanin_def fanins_def is_pi_def split: bool.splits)























section \<open>Reference-counting walks\<close>

declare walk.simps [simp del]

lemma walk_unfold:
  assumes "descending W"
  shows "walk W n st =
     (if ws_terminal W n then st
      else fold (step W) (ws_fanins W n) (fst st + ws_weight W n, snd st))"
proof (cases "ws_terminal W n")
  case True
  then show ?thesis by (subst walk.simps) simp
next
  case False
  have r: "\<forall>c \<in> set (ws_fanins W n). ws_rank W c < ws_rank W n"
    using assms False by (simp add: descending_def)
  have "fold (\<lambda>c st.
              if snd st c = ws_trigger W \<and> ws_rank W c < ws_rank W n
              then walk W c (fst st, (snd st)(c := ws_trigger W + ws_delta W))
              else (fst st, (snd st)(c := snd st c + ws_delta W)))
             (ws_fanins W n) (fst st + ws_weight W n, snd st)
      = fold (step W) (ws_fanins W n) (fst st + ws_weight W n, snd st)"
    using r by (intro fold_cong) (auto simp: step_def)
  then show ?thesis using False by (subst walk.simps) simp
qed

lemma step_shift_aux:
  assumes w: "\<And>st. walk W c (shift k b v st) = shift k b v (walk W c st)" and ne: "c \<noteq> b"
  shows "step W c (shift k b v st) = shift k b v (step W c st)"
proof (cases "snd st c = ws_trigger W")
  case True
  have "step W c (shift k b v st)
      = walk W c (shift k b v (fst st, (snd st)(c := ws_trigger W + ws_delta W)))"
    using True ne by (simp add: step_def shift_def fun_upd_twist)
  then show ?thesis using True w by (simp add: step_def)
next
  case False
  then show ?thesis using ne by (simp add: step_def shift_def fun_upd_twist)
qed

lemma walk_shift:
  assumes d: "descending W"
  shows "ws_rank W n \<le> ws_rank W b \<Longrightarrow> walk W n (shift k b v st) = shift k b v (walk W n st)"
proof (induction "ws_rank W n" arbitrary: n st rule: less_induct)
  case less
  show ?case
  proof (cases "ws_terminal W n")
    case True
    then show ?thesis by (simp add: walk_unfold [OF d])
  next
    case False
    let ?cs = "ws_fanins W n"
    have r: "\<forall>c \<in> set ?cs. ws_rank W c < ws_rank W n"
      using d False by (simp add: descending_def)
    have c: "shift k b v \<circ> step W c = step W c \<circ> shift k b v" if "c \<in> set ?cs" for c
    proof -
      have lt: "ws_rank W c < ws_rank W n" using r that by blast
      then have ne: "c \<noteq> b" using less.prems by auto
      have "walk W c (shift k b v st) = shift k b v (walk W c st)" for st
        using less.hyps [OF lt] lt less.prems by simp
      then have "step W c (shift k b v st) = shift k b v (step W c st)" for st
        using step_shift_aux [of W c k b v, OF _ ne] by blast
      then show ?thesis by (simp add: fun_eq_iff)
    qed
    have "walk W n (shift k b v st)
        = fold (step W) ?cs (shift k b v (fst st + ws_weight W n, snd st))"
      using False by (simp add: walk_unfold [OF d] shift_def add.commute add.left_commute)
    also have "\<dots> = shift k b v (fold (step W) ?cs (fst st + ws_weight W n, snd st))"
      using fold_commute_apply [of ?cs "shift k b v" "step W" "step W", OF c] by simp
    finally show ?thesis using False by (simp add: walk_unfold [OF d])
  qed
qed

lemma step_shift:
  assumes "descending W" and "ws_rank W a \<le> ws_rank W b" and "a \<noteq> b"
  shows "step W a (shift k b v st) = shift k b v (step W a st)"
  using step_shift_aux [of W a k b v st] walk_shift [OF assms(1,2)] assms(3) by blast

lemma walk_keeps:
  assumes "descending W" and "ws_rank W n \<le> ws_rank W b"
  shows "snd (walk W n st) b = snd st b"
proof -
  have "shift 0 b (snd st b) st = st" by (simp add: shift_def)
  then have "walk W n st = shift 0 b (snd st b) (walk W n st)"
    using walk_shift [OF assms, of 0 "snd st b" st] by simp
  then have "snd (walk W n st) b = snd (shift 0 b (snd st b) (walk W n st)) b" by simp
  then show ?thesis by (simp add: shift_def)
qed

lemma step_keeps:
  assumes "descending W" and "ws_rank W a \<le> ws_rank W b" and "a \<noteq> b"
  shows "snd (step W a st) b = snd st b"
  using assms by (simp add: step_def walk_keeps)

lemma walk_add:
  assumes "descending W"
  shows "walk W n (fst st + k, snd st) = (fst (walk W n st) + k, snd (walk W n st))"
proof -
  have a: "shift k n (snd st n) st = (fst st + k, snd st)" by (simp add: shift_def)
  have "walk W n (shift k n (snd st n) st) = shift k n (snd st n) (walk W n st)"
    using walk_shift [OF assms, of n n] by simp
  moreover have "snd (walk W n st) n = snd st n" using walk_keeps [OF assms, of n n] by simp
  then have "(snd (walk W n st))(n := snd st n) = snd (walk W n st)" by (metis fun_upd_triv)
  ultimately show ?thesis unfolding a by (simp add: shift_def)
qed

lemma step_add:
  assumes "descending W"
  shows "step W c (fst st + k, snd st) = (fst (step W c st) + k, snd (step W c st))"
  using walk_add [OF assms, of c "(fst st, (snd st)(c := ws_trigger W + ws_delta W))" k]
  by (simp add: step_def)

lemma step_at_trigger:
  assumes d: "descending W" and t: "snd st b = ws_trigger W"
  shows "step W b st =
     (if ws_terminal W b then shift 0 b (ws_trigger W + ws_delta W) st
      else fold (step W) (ws_fanins W b) (shift (ws_weight W b) b (ws_trigger W + ws_delta W) st))"
  using t by (simp add: step_def walk_unfold [OF d] shift_def)

lemma step_off_trigger:
  assumes "snd st b \<noteq> ws_trigger W"
  shows "step W b st = shift 0 b (snd st b + ws_delta W) st"
  using assms by (simp add: step_def shift_def)

lemma step_commute_ordered:
  assumes d: "descending W" and le: "ws_rank W a \<le> ws_rank W b"
    and IH: "\<And>c st. ws_rank W c < ws_rank W b \<Longrightarrow> step W a (step W c st) = step W c (step W a st)"
  shows "step W a (step W b st) = step W b (step W a st)"
proof (cases "a = b")
  case True
  then show ?thesis by simp
next
  case ne: False
  note sh = step_shift [OF d le ne]
  have keep: "snd (step W a st) b = snd st b" using step_keeps [OF d le ne] .
  show ?thesis
  proof (cases "snd st b = ws_trigger W")
    case False
    then have "snd (step W a st) b \<noteq> ws_trigger W" using keep by simp
    then show ?thesis using False keep by (simp add: step_off_trigger sh)
  next
    case True
    then have t': "snd (step W a st) b = ws_trigger W" using keep by simp
    show ?thesis
    proof (cases "ws_terminal W b")
      case True
      then show ?thesis using \<open>snd st b = ws_trigger W\<close> t'
        by (simp add: step_at_trigger [OF d] sh)
    next
      case False
      let ?cs = "ws_fanins W b"
      let ?sh = "shift (ws_weight W b) b (ws_trigger W + ws_delta W)"
      have r: "\<forall>c \<in> set ?cs. ws_rank W c < ws_rank W b"
        using d False by (simp add: descending_def)
      have c: "step W a \<circ> step W c = step W c \<circ> step W a" if "c \<in> set ?cs" for c
        using IH r that by (simp add: fun_eq_iff)
      have "step W a (step W b st) = step W a (fold (step W) ?cs (?sh st))"
        using False \<open>snd st b = ws_trigger W\<close> by (simp add: step_at_trigger [OF d])
      also have "\<dots> = fold (step W) ?cs (step W a (?sh st))"
        using fold_commute_apply [of ?cs "step W a" "step W" "step W", OF c] by simp
      also have "\<dots> = fold (step W) ?cs (?sh (step W a st))" by (simp add: sh)
      also have "\<dots> = step W b (step W a st)"
        using False t' by (simp add: step_at_trigger [OF d])
      finally show ?thesis .
    qed
  qed
qed

lemma step_commute:
  assumes d: "descending W"
  shows "step W a (step W b st) = step W b (step W a st)"
proof (induction "ws_rank W a + ws_rank W b" arbitrary: a b st rule: less_induct)
  case less
  show ?case
  proof (cases "ws_rank W a \<le> ws_rank W b")
    case True
    show ?thesis
    proof (rule step_commute_ordered [OF d True])
      fix c st assume "ws_rank W c < ws_rank W b"
      then have "ws_rank W a + ws_rank W c < ws_rank W a + ws_rank W b" by simp
      from less.hyps [OF this] show "step W a (step W c st) = step W c (step W a st)" .
    qed
  next
    case False
    then have le: "ws_rank W b \<le> ws_rank W a" by simp
    have "step W b (step W a st) = step W a (step W b st)"
    proof (rule step_commute_ordered [OF d le])
      fix c st assume "ws_rank W c < ws_rank W a"
      then have "ws_rank W b + ws_rank W c < ws_rank W a + ws_rank W b" by simp
      from less.hyps [OF this] show "step W b (step W c st) = step W c (step W b st)" .
    qed
    then show ?thesis by simp
  qed
qed

lemma fold_undo:
  assumes comm: "\<And>a b st. r a (r b st) = r b (r a st)"
    and inv: "\<And>c st. c \<in> set cs \<Longrightarrow> r c (d c st) = st"
  shows "fold r cs (fold d cs st) = st"
  using inv
proof (induction cs arbitrary: st)
  case Nil
  then show ?case by simp
next
  case (Cons c cs)
  have "r c \<circ> r x = r x \<circ> r c" for x by (simp add: fun_eq_iff comm)
  then have sw: "r c (fold r cs y) = fold r cs (r c y)" for y
    using fold_commute_apply [of cs "r c" r r] by simp
  have "fold r (c # cs) (fold d (c # cs) st) = r c (fold r cs (fold d cs (d c st)))"
    by (simp add: sw)
  also have "\<dots> = r c (d c st)" using Cons by simp
  also have "\<dots> = st" using Cons.prems by simp
  finally show ?case .
qed

lemma opposite_fields:
  "ws_rank (opposite W) = ws_rank W"
  "ws_fanins (opposite W) = ws_fanins W"
  "ws_terminal (opposite W) = ws_terminal W"
  "ws_weight (opposite W) n = - ws_weight W n"
  "ws_trigger (opposite W) = ws_trigger W + ws_delta W"
  "ws_delta (opposite W) = - ws_delta W"
  by (simp_all add: opposite_def)

lemma descending_opposite: "descending (opposite W) = descending W"
  by (simp add: descending_def opposite_fields)

lemma step_undo_aux:
  assumes d: "descending W"
    and w: "\<And>st. walk (opposite W) c (walk W c st) = st"
  shows "step (opposite W) c (step W c st) = st"
proof (cases "snd st c = ws_trigger W")
  case True
  let ?y = "walk W c (fst st, (snd st)(c := ws_trigger W + ws_delta W))"
  have sy: "step W c st = ?y" using True by (simp add: step_def)
  have "snd ?y c = ws_trigger W + ws_delta W" using walk_keeps [OF d, of c c] by simp
  then have "step (opposite W) c ?y = walk (opposite W) c (fst ?y, (snd ?y)(c := ws_trigger W))"
    by (simp add: step_def opposite_fields)
  also have "\<dots> = walk (opposite W) c (shift 0 c (ws_trigger W) ?y)" by (simp add: shift_def)
  also have "\<dots> = shift 0 c (ws_trigger W) (walk (opposite W) c ?y)"
    using d by (intro walk_shift) (simp_all add: descending_opposite)
  also have "\<dots> = shift 0 c (ws_trigger W) (fst st, (snd st)(c := ws_trigger W + ws_delta W))"
    by (simp add: w)
  also have "\<dots> = st" using True by (simp add: shift_def prod_eq_iff fun_upd_idem)
  finally show ?thesis using sy by simp
next
  case False
  then have "step W c st = (fst st, (snd st)(c := snd st c + ws_delta W))"
    by (simp add: step_def)
  moreover have "snd st c + ws_delta W \<noteq> ws_trigger W + ws_delta W" using False by simp
  ultimately show ?thesis by (simp add: step_def opposite_fields prod_eq_iff)
qed

lemma walk_undo:
  assumes d: "descending W"
  shows "walk (opposite W) n (walk W n st) = st"
proof (induction "ws_rank W n" arbitrary: n st rule: less_induct)
  case less
  note d' = d [folded descending_opposite [of W]]
  show ?case
  proof (cases "ws_terminal W n")
    case True
    then show ?thesis by (simp add: walk_unfold [OF d] walk_unfold [OF d'] opposite_fields)
  next
    case False
    let ?cs = "ws_fanins W n"
    let ?y = "fold (step W) ?cs st"
    have r: "\<forall>c \<in> set ?cs. ws_rank W c < ws_rank W n"
      using d False by (simp add: descending_def)
    have inv: "step (opposite W) c (step W c st) = st" if "c \<in> set ?cs" for c st
      using step_undo_aux [OF d, of c] less.hyps r that by blast
    have undo: "fold (step (opposite W)) ?cs (fold (step W) ?cs st) = st" for st
      using fold_undo [of "step (opposite W)" ?cs "step W"] step_commute [OF d'] inv by blast
    have lin: "fold (step V) cs (fst y + k, snd y) = (fst (fold (step V) cs y) + k, snd (fold (step V) cs y))"
      if "descending V" for V cs y k
    proof -
      let ?h = "\<lambda>y :: walk_state. (fst y + k, snd y)"
      have "?h \<circ> step V c = step V c \<circ> ?h" for c
        using step_add [OF that] by (simp add: fun_eq_iff)
      then show ?thesis using fold_commute_apply [of cs ?h "step V" "step V" y] by simp
    qed
    define z where "z = fold (step W) ?cs (fst st + ws_weight W n, snd st)"
    have wz: "walk W n st = z" using False by (simp add: walk_unfold [OF d] z_def)
    have "walk (opposite W) n z = fold (step (opposite W)) ?cs (fst z + (- ws_weight W n), snd z)"
      using False by (simp add: walk_unfold [OF d'] opposite_fields)
    also have "\<dots> = (fst (fold (step (opposite W)) ?cs z) + (- ws_weight W n),
                      snd (fold (step (opposite W)) ?cs z))"
      by (rule lin [OF d'])
    also have "fold (step (opposite W)) ?cs z = (fst st + ws_weight W n, snd st)"
      unfolding z_def by (rule undo)
    finally show ?thesis using wz by simp
  qed
qed

lemma length_with_values: "length (nodes (with_values ntk s)) = length (nodes ntk)"
  by (simp add: with_values_def)

lemma nth_with_values:
  "i < length (nodes ntk) \<Longrightarrow> nodes (with_values ntk s) ! i = (nodes ntk ! i)\<lparr>data0_h2 := s i\<rparr>"
  by (simp add: with_values_def)

lemma with_values_of: "with_values ntk (values_of ntk) = ntk"
proof -
  have "map (\<lambda>i. (nodes ntk ! i)\<lparr>data0_h2 := values_of ntk i\<rparr>) [0..<length (nodes ntk)] = nodes ntk"
    by (rule nth_equalityI) (simp_all add: values_of_def)
  then show ?thesis by (simp add: with_values_def)
qed

lemma with_values_update:
  assumes "c < length (nodes ntk)"
  shows "(with_values ntk s)\<lparr>nodes := (nodes (with_values ntk s))
            [c := (nodes (with_values ntk s) ! c)\<lparr>data0_h2 := v\<rparr>]\<rparr> = with_values ntk (s(c := v))"
proof -
  let ?f = "\<lambda>s i. (nodes ntk ! i)\<lparr>data0_h2 := s i\<rparr>"
  let ?is = "[0..<length (nodes ntk)]"
  have "(map (?f s) ?is)[c := (map (?f s) ?is ! c)\<lparr>data0_h2 := v\<rparr>] = map (?f (s(c := v))) ?is"
  proof (rule nth_equalityI)
    show "length ((map (?f s) ?is)[c := (map (?f s) ?is ! c)\<lparr>data0_h2 := v\<rparr>])
        = length (map (?f (s(c := v))) ?is)" by simp
  next
    fix i assume "i < length ((map (?f s) ?is)[c := (map (?f s) ?is ! c)\<lparr>data0_h2 := v\<rparr>])"
    then have i: "i < length (nodes ntk)" by simp
    show "(map (?f s) ?is)[c := (map (?f s) ?is ! c)\<lparr>data0_h2 := v\<rparr>] ! i
        = map (?f (s(c := v))) ?is ! i"
      using i assms by (cases "i = c") simp_all
  qed
  then show ?thesis by (simp add: with_values_def)
qed

lemma decr_with_values:
  assumes "c < length (nodes ntk)"
  shows "decr_value c (with_values ntk s) = Inr (s c - 1, with_values ntk (s(c := s c - 1)))"
  using assms with_values_update [OF assms, of s "s c - 1"]
  by (simp add: decr_value_def length_with_values nth_with_values)

lemma incr_with_values:
  assumes "c < length (nodes ntk)"
  shows "incr_value c (with_values ntk s) = Inr (s c, with_values ntk (s(c := s c + 1)))"
  using assms with_values_update [OF assms, of s "s c + 1"]
  by (simp add: incr_value_def length_with_values nth_with_values)

lemma foreach_fanin_with_values:
  assumes "n < length (nodes ntk)"
  shows "foreach_fanin (with_values ntk s) n = Inr (fanins ntk n)"
proof -
  have "foreach_fanin (with_values ntk s) n = Inr (fanins (with_values ntk s) n)"
    using assms by (intro foreach_fanin_in_range) (simp add: length_with_values)
  then show ?thesis using assms by (simp add: fanins_def nth_with_values)
qed

lemma walk_of_fields:
  "ws_rank (walk_of env rank ntk sg t d) = rank"
  "ws_fanins (walk_of env rank ntk sg t d) n = (if n < length (nodes ntk) then fanins ntk n else [])"
  "ws_terminal (walk_of env rank ntk sg t d) = is_terminal env"
  "ws_weight (walk_of env rank ntk sg t d) n = sg * cost_fn env n"
  "ws_trigger (walk_of env rank ntk sg t d) = t"
  "ws_delta (walk_of env rank ntk sg t d) = d"
  by (simp_all add: walk_of_def)

lemma descending_walk_of:
  assumes "acyclic_by env rank ntk"
  shows "descending (walk_of env rank ntk sg t d)"
  using assms by (simp add: descending_def walk_of_def acyclic_by_def)

lemma for_each_partial_sim:
  assumes "\<And>c st. c \<in> set cs \<Longrightarrow> body c (h st) = Some (Inr (h (g c st)))"
  shows "for_each_partial body cs (h st) = Some (Inr (h (fold g cs st)))"
  using assms by (induction cs arbitrary: st) simp_all

lemma walk_transfer:
  fixes F :: "nat \<Rightarrow> node \<Rightarrow> klut_network \<Rightarrow> (error + 32 word \<times> klut_network) option"
  assumes FS: "\<And>fuel n ntk. F (Suc fuel) n ntk =
        (if is_terminal env n then Some (Inr (0, ntk))
         else case foreach_fanin ntk n of
                Inl e \<Rightarrow> Some (Inl e)
              | Inr cs \<Rightarrow> for_each_partial (B (F fuel)) cs (cost_fn env n, ntk))"
    and BS: "\<And>recur c value s. c < length (nodes ntk) \<Longrightarrow>
        B recur c (value, with_values ntk s) =
          (if s c = t then
             (case recur c (with_values ntk (s(c := t + d))) of
                None \<Rightarrow> None
              | Some (Inl e) \<Rightarrow> Some (Inl e)
              | Some (Inr (w, ntk2)) \<Rightarrow> Some (Inr (value + w, ntk2)))
           else Some (Inr (value, with_values ntk (s(c := s c + d)))))"
    and ac: "acyclic_by env rank ntk" and sg: "sg * sg = 1"
  shows "n < length (nodes ntk) \<Longrightarrow> rank n < fuel \<Longrightarrow>
     F fuel n (with_values ntk s) =
       Some (Inr (sg * fst (walk (walk_of env rank ntk sg t d) n (0, s)),
                  with_values ntk (snd (walk (walk_of env rank ntk sg t d) n (0, s)))))"
proof (induction fuel arbitrary: n s)
  case 0
  then show ?case by simp
next
  case (Suc fuel)
  let ?W = "walk_of env rank ntk sg t d"
  let ?h = "\<lambda>st :: walk_state. (sg * fst st, with_values ntk (snd st))"
  note d = descending_walk_of [OF ac, of sg t d]
  show ?case
  proof (cases "is_terminal env n")
    case True
    then have "walk ?W n (0, s) = (0, s)" by (simp add: walk_unfold [OF d] walk_of_fields)
    then show ?thesis using True by (simp add: FS)
  next
    case False
    let ?cs = "fanins ntk n"
    have cs: "\<forall>c \<in> set ?cs. c < length (nodes ntk) \<and> rank c < rank n"
      using ac False Suc.prems(1) by (simp add: acyclic_by_def)
    have body: "B (F fuel) c (?h st) = Some (Inr (?h (step ?W c st)))" if "c \<in> set ?cs" for c st
    proof -
      have c: "c < length (nodes ntk)" and r: "rank c < fuel"
        using cs that Suc.prems(2) by auto
      show ?thesis
      proof (cases "snd st c = t")
        case True
        let ?s' = "(snd st)(c := t + d)"
        let ?r = "walk ?W c (0, ?s')"
        have "step ?W c st = walk ?W c (0 + fst st, ?s')"
          using True by (simp add: step_def walk_of_fields)
        also have "\<dots> = (fst ?r + fst st, snd ?r)"
          using walk_add [OF d, of c "(0, ?s')" "fst st"] by simp
        finally have st: "step ?W c st = (fst ?r + fst st, snd ?r)" .
        have ih: "F fuel c (with_values ntk ?s') = Some (Inr (sg * fst ?r, with_values ntk (snd ?r)))"
          by (rule Suc.IH [OF c r])
        have "B (F fuel) c (sg * fst st, with_values ntk (snd st)) =
            (case F fuel c (with_values ntk ?s') of
               None \<Rightarrow> None
             | Some (Inl e) \<Rightarrow> Some (Inl e)
             | Some (Inr (w, ntk2)) \<Rightarrow> Some (Inr (sg * fst st + w, ntk2)))"
          using BS [OF c, of "F fuel" "sg * fst st" "snd st"] True by simp
        then have "B (F fuel) c (?h st) = Some (Inr (sg * fst st + sg * fst ?r, with_values ntk (snd ?r)))"
          unfolding ih by simp
        then show ?thesis unfolding st by (simp add: distrib_left add.commute)
      next
        case False
        then show ?thesis by (simp add: BS [OF c] step_def walk_of_fields)
      qed
    qed
    have w: "walk ?W n (0, s) = fold (step ?W) ?cs (sg * cost_fn env n, s)"
      using False Suc.prems(1) by (simp add: walk_unfold [OF d] walk_of_fields)
    have "sg * (sg * cost_fn env n) = cost_fn env n"
      using sg by (simp add: mult.assoc [symmetric])
    then have i: "?h (sg * cost_fn env n, s) = (cost_fn env n, with_values ntk s)" by simp
    have "F (Suc fuel) n (with_values ntk s)
        = for_each_partial (B (F fuel)) ?cs (cost_fn env n, with_values ntk s)"
      using False by (simp add: FS foreach_fanin_with_values [OF Suc.prems(1)])
    also have "\<dots> = for_each_partial (B (F fuel)) ?cs (?h (sg * cost_fn env n, s))"
      unfolding i ..
    also have "\<dots> = Some (Inr (?h (fold (step ?W) ?cs (sg * cost_fn env n, s))))"
      using for_each_partial_sim [of ?cs "B (F fuel)" ?h "step ?W"] body by blast
    finally show ?thesis unfolding w .
  qed
qed

lemma recursive_deref_walk:
  assumes "acyclic_by env rank ntk" and "n < length (nodes ntk)" and "rank n < fuel"
  shows "recursive_deref env fuel n (with_values ntk s) =
       Some (Inr (fst (walk (walk_of env rank ntk 1 1 (- 1)) n (0, s)),
                  with_values ntk (snd (walk (walk_of env rank ntk 1 1 (- 1)) n (0, s)))))"
proof -
  have "recursive_deref env fuel n (with_values ntk s) =
       Some (Inr (1 * fst (walk (walk_of env rank ntk 1 1 (- 1)) n (0, s)),
                  with_values ntk (snd (walk (walk_of env rank ntk 1 1 (- 1)) n (0, s)))))"
  proof (rule walk_transfer [where B = deref_fanin, OF _ _ assms(1) _ assms(2,3)])
    show "recursive_deref env (Suc fuel) n ntk =
        (if is_terminal env n then Some (Inr (0, ntk))
         else case foreach_fanin ntk n of
                Inl e \<Rightarrow> Some (Inl e)
              | Inr cs \<Rightarrow> for_each_partial (deref_fanin (recursive_deref env fuel)) cs (cost_fn env n, ntk))"
      for fuel n ntk
      by (simp add: is_terminal_def)
  next
    show "deref_fanin recur c (value, with_values ntk s) =
          (if s c = 1 then
             (case recur c (with_values ntk (s(c := 1 + - 1))) of
                None \<Rightarrow> None
              | Some (Inl e) \<Rightarrow> Some (Inl e)
              | Some (Inr (w, ntk2)) \<Rightarrow> Some (Inr (value + w, ntk2)))
           else Some (Inr (value, with_values ntk (s(c := s c + - 1)))))"
      if "c < length (nodes ntk)" for recur c "value" s
      using that by (simp add: deref_fanin_def decr_with_values)
  next
    show "(1 :: 32 word) * 1 = 1" by simp
  qed
  then show ?thesis by simp
qed

lemma recursive_ref_walk:
  assumes "acyclic_by env rank ntk" and "n < length (nodes ntk)" and "rank n < fuel"
  shows "recursive_ref env fuel n (with_values ntk s) =
       Some (Inr (- 1 * fst (walk (walk_of env rank ntk (- 1) 0 1) n (0, s)),
                  with_values ntk (snd (walk (walk_of env rank ntk (- 1) 0 1) n (0, s)))))"
proof (rule walk_transfer [where B = ref_fanin, OF _ _ assms(1) _ assms(2,3)])
  show "recursive_ref env (Suc fuel) n ntk =
      (if is_terminal env n then Some (Inr (0, ntk))
       else case foreach_fanin ntk n of
              Inl e \<Rightarrow> Some (Inl e)
            | Inr cs \<Rightarrow> for_each_partial (ref_fanin (recursive_ref env fuel)) cs (cost_fn env n, ntk))"
    for fuel n ntk
    by (simp add: is_terminal_def)
next
  show "ref_fanin recur c (value, with_values ntk s) =
        (if s c = 0 then
           (case recur c (with_values ntk (s(c := 0 + 1))) of
              None \<Rightarrow> None
            | Some (Inl e) \<Rightarrow> Some (Inl e)
            | Some (Inr (w, ntk2)) \<Rightarrow> Some (Inr (value + w, ntk2)))
         else Some (Inr (value, with_values ntk (s(c := s c + 1)))))"
    if "c < length (nodes ntk)" for recur c "value" s
    using that by (simp add: ref_fanin_def incr_with_values)
next
  show "(- 1 :: 32 word) * - 1 = 1" by simp
qed

text \<open>
  C2: on a network that is acyclic, for every node \<open>n\<close> of the network and whatever the
  scratch values are (in particular when they were initialised from the fanout sizes),
  \<open>recursive_deref(n)\<close> returns, given fuel beyond the rank of \<open>n\<close>, and
  \<open>recursive_ref(n)\<close> on the network it leaves returns the same accumulated cost and
  leaves the network as it was before the \<open>recursive_deref\<close>: every scratch value is
  restored.
\<close>

theorem deref_then_ref_restores:
  assumes "acyclic_by env rank ntk" and "n < length (nodes ntk)"
    and "rank n < fuel" and "rank n < fuel'"
  shows "\<exists>v ntk'. recursive_deref env fuel n ntk = Some (Inr (v, ntk')) \<and>
           recursive_ref env fuel' n ntk' = Some (Inr (v, ntk))"
proof -
  let ?D = "walk_of env rank ntk 1 1 (- 1)"
  let ?R = "walk_of env rank ntk (- 1) 0 1"
  define v where "v = fst (walk ?D n (0, values_of ntk))"
  define s1 where "s1 = snd (walk ?D n (0, values_of ntk))"
  define r where "r = walk ?R n (0, s1)"
  have a: "recursive_deref env fuel n ntk = Some (Inr (v, with_values ntk s1))"
    using recursive_deref_walk [OF assms(1,2,3), of "values_of ntk"]
    by (simp add: with_values_of v_def s1_def)
  have b: "recursive_ref env fuel' n (with_values ntk s1)
      = Some (Inr (- 1 * fst r, with_values ntk (snd r)))"
    unfolding r_def by (rule recursive_ref_walk [OF assms(1,2,4)])
  have opp: "opposite ?D = ?R" by (simp add: opposite_def walk_of_def)
  have "walk (opposite ?D) n (walk ?D n (0, values_of ntk)) = (0, values_of ntk)"
    by (rule walk_undo [OF descending_walk_of [OF assms(1)]])
  then have u: "walk ?R n (v, s1) = (0, values_of ntk)"
    unfolding opp by (simp add: v_def s1_def)
  have "walk ?R n (v, s1) = (fst r + v, snd r)"
    unfolding r_def
    using walk_add [where W = "?R" and n = n and st = "(0, s1)" and k = v,
        OF descending_walk_of [OF assms(1)]]
    by simp
  then have "(fst r + v, snd r) = (0, values_of ntk)" using u by simp
  then have "fst r + v = 0" and sr: "snd r = values_of ntk" by simp_all
  then have "fst r = - v" by (simp add: eq_neg_iff_add_eq_0)
  then have "recursive_ref env fuel' n (with_values ntk s1) = Some (Inr (v, ntk))"
    using b sr by (simp add: with_values_of)
  then show ?thesis using a by blast
qed

lemmas walk_eval = deref_fanin_def ref_fanin_def foreach_fanin_def is_pi_def is_constant_def
  incr_value_def decr_value_def

theorem deref_then_ref_restores_witness:
  "(case klut_run [Create_pi, Create_pi, Create_node [2, 3] [False, False, False, True],
                   Create_node [4, 2] [False, False, False, True], Create_po 5,
                   Set_value 2 2, Set_value 3 1, Set_value 4 1, Set_value 5 1] of
      Inl e \<Rightarrow> False
    | Inr ntk \<Rightarrow>
        map data0_h2 (nodes ntk) = map data0_h1 (nodes ntk) \<and>
        (case recursive_deref
                \<lparr>is_ci = (\<lambda>n. n = 2 \<or> n = 3), is_ro = (\<lambda>n. False), cost_fn = (\<lambda>n. 1)\<rparr> 3 5 ntk of
           Some (Inr (v, ntk')) \<Rightarrow>
             v = 2 \<and> map data0_h2 (nodes ntk') = [0, 0, 0, 0, 0, 1] \<and>
             recursive_ref
               \<lparr>is_ci = (\<lambda>n. n = 2 \<or> n = 3), is_ro = (\<lambda>n. False), cost_fn = (\<lambda>n. 1)\<rparr> 3 5 ntk'
               = Some (Inr (v, ntk))
         | _ \<Rightarrow> False))"
proof -
  let ?ops = "[Create_pi, Create_pi, Create_node [2, 3] [False, False, False, True],
               Create_node [4, 2] [False, False, False, True], Create_po 5,
               Set_value 2 2, Set_value 3 1, Set_value 4 1, Set_value 5 1]"
  let ?env = "\<lparr>is_ci = (\<lambda>n. n = 2 \<or> n = 3), is_ro = (\<lambda>n. False), cost_fn = (\<lambda>n. 1)\<rparr>"
  obtain ntk where r: "klut_run ?ops = Inr ntk" and l: "length (nodes ntk) = 6"
    and ch: "map children (nodes ntk) = [[], [], [], [], [2, 3], [4, 2]]"
    and vs: "map data0_h2 (nodes ntk) = map data0_h1 (nodes ntk)"
    and ev: "map_option (map_sum id (\<lambda>(v, ntk'). (v, map data0_h2 (nodes ntk'))))
               (recursive_deref ?env 3 5 ntk) = Some (Inr (2, [0, 0, 0, 0, 0, 1]))"
    by (simp add: klut_run_def ntk_eval walk_eval numeral_3_eq_3)
  have c4: "children (nodes ntk ! 4) = [2, 3]" and c5: "children (nodes ntk ! 5) = [4, 2]"
    using ch l nth_map [of 4 "nodes ntk" children] nth_map [of 5 "nodes ntk" children] by simp_all
  have ac: "acyclic_by ?env (\<lambda>n. n - 3) ntk"
    unfolding acyclic_by_def l
  proof (intro allI impI)
    fix n :: nat assume n: "n < 6" and t: "\<not> is_terminal ?env n"
    then have "n = 4 \<or> n = 5" by (auto simp: is_terminal_def is_constant_def)
    then show "\<forall>c \<in> set (fanins ntk n). c < 6 \<and> c - 3 < n - 3"
      using c4 c5 by (auto simp: fanins_def)
  qed
  obtain v ntk' where d: "recursive_deref ?env 3 5 ntk = Some (Inr (v, ntk'))"
    and f: "recursive_ref ?env 3 5 ntk' = Some (Inr (v, ntk))"
    using deref_then_ref_restores [OF ac, of 5 3 3] l by auto
  have "v = 2" and "map data0_h2 (nodes ntk') = [0, 0, 0, 0, 0, 1]"
    using ev unfolding d by simp_all
  then show ?thesis unfolding r using vs d f by simp
qed

end
